theory Spec2Isabelle
  imports Complex_Main "HOL-Library.Word" "HOL-Library.Signed_Division" "HOL-Library.Sublist"
begin

unbundle bit_operations_syntax

section \<open>Machine model\<close>

text \<open>
  The program is C++ compiled for x86-64 (\<^verbatim>\<open>speedy_min.cpp\<close>; \<^verbatim>\<open>speedy_x86.cpp\<close> has the
  same functions around an inline-assembly codec). Its \<^verbatim>\<open>int\<close> is a 32-bit two's complement
  integer: arithmetic on it wraps around, and the division instruction traps on a zero
  divisor and on \<^verbatim>\<open>INT_MIN / -1\<close>. Its \<^verbatim>\<open>double\<close> is IEEE 754 binary64 with rounding to
  nearest, ties to even.
\<close>

type_synonym int32 = "32 word"

datatype error =
    DivisionByZero
  | DivisionOverflow
  | IncrementOverflow
  | UndefinedConversion
  | EmptyRange

definition INT_MAX :: int32 where
  "INT_MAX = 2147483647"

definition INT_MIN :: int32 where
  "INT_MIN = - 2147483648"

text \<open>\<^verbatim>\<open>a / b\<close> and \<^verbatim>\<open>a % b\<close> on \<^verbatim>\<open>int\<close>: truncation towards zero, the remainder has the
  sign of the dividend.\<close>

definition c_div :: "int32 \<Rightarrow> int32 \<Rightarrow> error + int32" where
  "c_div a b =
     (if b = 0 then Inl DivisionByZero
      else if a = INT_MIN \<and> b = - 1 then Inl DivisionOverflow
      else Inr (word_of_int (sint a sdiv sint b)))"

definition c_mod :: "int32 \<Rightarrow> int32 \<Rightarrow> error + int32" where
  "c_mod a b =
     (if b = 0 then Inl DivisionByZero
      else if a = INT_MIN \<and> b = - 1 then Inl DivisionOverflow
      else Inr (word_of_int (sint a smod sint b)))"

section \<open>Binary64\<close>

text \<open>
  A \<^verbatim>\<open>double\<close> is a finite number, an infinity or a NaN. The finite ones are the reals
  \<open>k * 2 ^ e\<close> with \<open>\<bar>k\<bar> < 2 ^ 53\<close>, \<open>e \<ge> -1074\<close> and magnitude up to \<open>DBL_MAX\<close>. The sign of
  a zero and the payload of a NaN are not represented.
\<close>

datatype double = Finite real | PosInf | NegInf | NaN

definition DBL_MAX :: real where
  "DBL_MAX = (2 ^ 53 - 1) * 2 ^ 971"

text \<open>
  Rounding of a real to the nearest \<^verbatim>\<open>double\<close>. \<open>binade x\<close> is the exponent of \<open>x\<close>, held at
  \<open>-1022\<close> in the subnormal range, and \<open>ulp x\<close> the distance between neighbouring
  \<^verbatim>\<open>double\<close>s there. A tie goes to the even neighbour, and a result beyond \<open>DBL_MAX\<close> is an
  infinity.
\<close>

definition binade :: "real \<Rightarrow> int" where
  "binade x = max \<lfloor>log 2 \<bar>x\<bar>\<rfloor> (- 1022)"

definition ulp :: "real \<Rightarrow> real" where
  "ulp x = 2 powi (binade x - 52)"

definition nearest_even :: "real \<Rightarrow> int" where
  "nearest_even m =
     (let f = \<lfloor>m\<rfloor>; r = m - of_int f
      in if r < 1 / 2 then f else if 1 / 2 < r then f + 1 else if even f then f else f + 1)"

definition round64 :: "real \<Rightarrow> double" where
  "round64 x =
     (if x = 0 then Finite 0
      else let r = of_int (nearest_even (x / ulp x)) * ulp x
           in if DBL_MAX < \<bar>r\<bar> then (if 0 < x then PosInf else NegInf) else Finite r)"

text \<open>The arithmetic of \<^verbatim>\<open>double\<close>: the exact result, rounded. A zero divisor is taken as
  \<open>+0\<close>; the only divisors of the program are \<^verbatim>\<open>pow(2, D)\<close> and \<^verbatim>\<open>2.0\<close>.\<close>

fun d_neg :: "double \<Rightarrow> double" where
  "d_neg (Finite x) = Finite (- x)"
| "d_neg PosInf = NegInf"
| "d_neg NegInf = PosInf"
| "d_neg NaN = NaN"

fun d_add :: "double \<Rightarrow> double \<Rightarrow> double" where
  "d_add (Finite x) (Finite y) = round64 (x + y)"
| "d_add NaN b = NaN"
| "d_add a NaN = NaN"
| "d_add PosInf NegInf = NaN"
| "d_add NegInf PosInf = NaN"
| "d_add PosInf b = PosInf"
| "d_add a PosInf = PosInf"
| "d_add NegInf b = NegInf"
| "d_add a NegInf = NegInf"

definition d_sub :: "double \<Rightarrow> double \<Rightarrow> double" where
  "d_sub a b = d_add a (d_neg b)"

fun d_mul :: "double \<Rightarrow> double \<Rightarrow> double" where
  "d_mul (Finite x) (Finite y) = round64 (x * y)"
| "d_mul NaN b = NaN"
| "d_mul a NaN = NaN"
| "d_mul PosInf (Finite y) = (if y = 0 then NaN else if 0 < y then PosInf else NegInf)"
| "d_mul NegInf (Finite y) = (if y = 0 then NaN else if 0 < y then NegInf else PosInf)"
| "d_mul (Finite x) PosInf = (if x = 0 then NaN else if 0 < x then PosInf else NegInf)"
| "d_mul (Finite x) NegInf = (if x = 0 then NaN else if 0 < x then NegInf else PosInf)"
| "d_mul PosInf PosInf = PosInf"
| "d_mul PosInf NegInf = NegInf"
| "d_mul NegInf PosInf = NegInf"
| "d_mul NegInf NegInf = PosInf"

fun d_div :: "double \<Rightarrow> double \<Rightarrow> double" where
  "d_div (Finite x) (Finite y) =
     (if y = 0 then (if x = 0 then NaN else if 0 < x then PosInf else NegInf)
      else round64 (x / y))"
| "d_div NaN b = NaN"
| "d_div a NaN = NaN"
| "d_div (Finite x) PosInf = Finite 0"
| "d_div (Finite x) NegInf = Finite 0"
| "d_div PosInf (Finite y) = (if 0 \<le> y then PosInf else NegInf)"
| "d_div NegInf (Finite y) = (if 0 \<le> y then NegInf else PosInf)"
| "d_div PosInf PosInf = NaN"
| "d_div PosInf NegInf = NaN"
| "d_div NegInf PosInf = NaN"
| "d_div NegInf NegInf = NaN"

text \<open>The conversion of an \<^verbatim>\<open>int\<close> to \<^verbatim>\<open>double\<close> is exact.\<close>

definition of_int32 :: "int32 \<Rightarrow> double" where
  "of_int32 D = Finite (real_of_int (sint D))"

text \<open>\<^verbatim>\<open>pow(2, D)\<close> for an \<^verbatim>\<open>int\<close> \<open>D\<close>: the power of two itself while it is a \<^verbatim>\<open>double\<close>,
  infinity above the range and zero below it.\<close>

definition pow_2 :: "int32 \<Rightarrow> double" where
  "pow_2 D =
     (if 1024 \<le> sint D then PosInf
      else if sint D < - 1074 then Finite 0
      else Finite (2 powi (sint D)))"

text \<open>\<^verbatim>\<open>static_cast<int>(x)\<close> of a \<^verbatim>\<open>double\<close>: the fraction is dropped; the conversion is
  undefined when the result does not fit, and for an infinity and a NaN.\<close>

definition trunc_toward_zero :: "real \<Rightarrow> int" where
  "trunc_toward_zero x = (if x < 0 then \<lceil>x\<rceil> else \<lfloor>x\<rfloor>)"

fun static_cast_int :: "double \<Rightarrow> error + int32" where
  "static_cast_int (Finite x) =
     (let t = trunc_toward_zero x
      in if - 2147483648 \<le> t \<and> t \<le> 2147483647 then Inr (word_of_int t)
         else Inl UndefinedConversion)"
| "static_cast_int PosInf = Inl UndefinedConversion"
| "static_cast_int NegInf = Inl UndefinedConversion"
| "static_cast_int NaN = Inl UndefinedConversion"

section \<open>Scalar codec\<close>

text \<open>\<^verbatim>\<open>double encode(double Y, int D) { return pow(2, D) * (Y + D / 2.0); }\<close> and
  \<^verbatim>\<open>double decode(double X, int D) { return X / pow(2, D) - D / 2.0; }\<close> of
  \<^verbatim>\<open>speedy_min.cpp\<close>. (\<^verbatim>\<open>speedy_x86.cpp\<close> has x87 inline assembly in their place, which is
  not modelled.)\<close>

definition encode :: "double \<Rightarrow> int32 \<Rightarrow> double" where
  "encode Y D = d_mul (pow_2 D) (d_add Y (d_div (of_int32 D) (Finite 2)))"

definition decode :: "double \<Rightarrow> int32 \<Rightarrow> double" where
  "decode X D = d_sub (d_div X (pow_2 D)) (d_div (of_int32 D) (Finite 2))"

section \<open>Rank-to-digit mapper\<close>

text \<open>
  The body of the \<^verbatim>\<open>for (int j = 1; j <= k; ++j)\<close> loop of \<^verbatim>\<open>ithPermutation\<close>, with the
  loop variables as arguments. \<^verbatim>\<open>factor *= j\<close> wraps around. The increment of \<open>j\<close> at
  \<open>INT_MAX\<close> has no successor to go to and ends the run (lemma
  \<open>ithPermutation_no_IncrementOverflow\<close> shows that a call of \<open>ithPermutation\<close> never
  gets there).
\<close>

function ithPermutation_loop ::
  "int32 \<Rightarrow> int32 \<Rightarrow> int32 \<Rightarrow> int32 \<Rightarrow> int32 list \<Rightarrow> error + int32 list" where
  "ithPermutation_loop k i j factor result =
     (if j \<le>s k then
        (let factor' = factor * j in
         case c_div i factor' of
           Inl e \<Rightarrow> Inl e
         | Inr q \<Rightarrow>
             (case c_mod q (j + 1) of
                Inl e \<Rightarrow> Inl e
              | Inr element \<Rightarrow>
                  if j = INT_MAX then Inl IncrementOverflow
                  else ithPermutation_loop k i (j + 1) factor' (result @ [element])))
      else Inr result)"
  by pat_completeness auto
termination
  apply (relation "measure (\<lambda>(k, i, j, factor, result). nat (sint k - sint j + 1))")
   apply simp
  subgoal premises prems for k i j
  proof -
    from prems have le: "j \<le>s k" and ne: "j \<noteq> INT_MAX"
      by simp_all
    have "sint j \<le> 2147483647"
      using sint_lt [of j] by simp
    moreover have "sint j \<noteq> 2147483647"
    proof
      assume "sint j = 2147483647"
      then have "word_of_int (sint j) = (word_of_int 2147483647 :: int32)"
        by simp
      then show False
        using ne by (simp add: INT_MAX_def)
    qed
    ultimately have lt: "sint j < 2147483647"
      by simp
    have "- 2147483648 \<le> sint j"
      using sint_ge [of j] by simp
    then have "sint (j + 1) = sint j + 1"
      using lt by (simp add: sint_word_ariths signed_take_bit_int_eq_self)
    then show ?thesis
      using le by (simp add: word_sle_eq)
  qed
  done

definition ithPermutation :: "int32 \<Rightarrow> int32 \<Rightarrow> int32 \<Rightarrow> error + int32 list" where
  "ithPermutation n k i = ithPermutation_loop k i 1 1 []"

section \<open>Layer unwinder and telemetry\<close>

text \<open>
  What the program does not compute itself comes from the platform: the readings of
  \<^verbatim>\<open>high_resolution_clock::now()\<close> in nanoseconds, the \<open>t\<close>-th reading of a run being
  \<open>clock P t\<close>, the constant \<^verbatim>\<open>sizeof(std::vector<int>)\<close>, and what the loader finds in its
  variable \<^verbatim>\<open>value\<close> when it reads it without having written it, at line \<open>i\<close> of the file
  \<open>unread_value P i\<close>.
\<close>

record platform =
  clock :: "nat \<Rightarrow> real"
  sizeof_vector :: int32
  unread_value :: "nat \<Rightarrow> int32"

text \<open>
  The state of a run: the two vectors \<^verbatim>\<open>timings\<close> and \<^verbatim>\<open>sizes\<close> that the unwinder gets
  by reference, and two components that the program does not store, kept here to state
  what a run did: the number of clock readings taken so far, and the calls and appends
  made so far, in order.
\<close>

datatype event =
    DecodeStep int32 int32
  | MapperCall int32
  | SampleLogged int32 real int32

record run_state =
  timings :: "real list"
  sizes :: "int32 list"
  ticks :: nat
  events :: "event list"

definition now :: "platform \<Rightarrow> run_state \<Rightarrow> real \<times> run_state" where
  "now P s = (clock P (ticks s), s\<lparr>ticks := Suc (ticks s)\<rparr>)"

definition log_event :: "event \<Rightarrow> run_state \<Rightarrow> run_state" where
  "log_event ev s = s\<lparr>events := events s @ [ev]\<rparr>"

definition push_sample :: "real \<Rightarrow> int32 \<Rightarrow> run_state \<Rightarrow> run_state" where
  "push_sample t sz s = s\<lparr>timings := timings s @ [t], sizes := sizes s @ [sz]\<rparr>"

text \<open>
  \<^verbatim>\<open>reverse_engineer_encoded_value\<close>. \<open>DecodeStep d v\<close> is noted when the call at depth
  \<open>d\<close> decodes \<open>v\<close>, \<open>MapperCall v\<close> when the call at depth 0 hands \<open>v\<close> to the mapper,
  \<open>SampleLogged d t sz\<close> when the call at depth \<open>d\<close> appends the sample \<open>(t, sz)\<close>. A failure of the
  inner call ends the run: the result is the failure and the state the one reached then.
  \<^verbatim>\<open>layer_depth - 1\<close> wraps around, so the recursion ends for every depth.
\<close>

function reverse_engineer_encoded_value ::
  "platform \<Rightarrow> int32 \<Rightarrow> int32 \<Rightarrow> int32 \<Rightarrow> int32 \<Rightarrow> run_state
     \<Rightarrow> (error + int32 list) \<times> run_state" where
  "reverse_engineer_encoded_value P v layer_depth n k s =
     (if layer_depth = 0 then (ithPermutation n k v, log_event (MapperCall v) s)
      else
        (case now P s of (start_time, s1) \<Rightarrow>
           let decoded_value = decode (of_int32 v) 1 in
           (case static_cast_int
                   (d_sub decoded_value (d_div (of_int32 layer_depth) (Finite 2))) of
              Inl e \<Rightarrow> (Inl e, log_event (DecodeStep layer_depth v) s1)
            | Inr original_value \<Rightarrow>
                (case reverse_engineer_encoded_value P original_value (layer_depth - 1) n k
                        (log_event (DecodeStep layer_depth v) s1) of
                   (Inl e, s2) \<Rightarrow> (Inl e, s2)
                 | (Inr result, s2) \<Rightarrow>
                     (case now P s2 of (end_time, s3) \<Rightarrow>
                        (Inr result,
                         log_event
                           (SampleLogged layer_depth (end_time - start_time) (sizeof_vector P))
                           (push_sample (end_time - start_time) (sizeof_vector P) s3)))))))"
  by pat_completeness auto
termination
  by (relation "measure (\<lambda>(P, v, layer_depth, n, k, s). unat layer_depth)")
    (simp_all add: unat_minus_one unat_gt_0)

section \<open>Loading the candidates\<close>

text \<open>
  \<^verbatim>\<open>ss >> value\<close> on a fresh \<^verbatim>\<open>std::stringstream\<close> over one line, as the C++ standard
  (since C++11) defines the extraction: leading white space is skipped; if nothing is
  left, the extraction does not write \<open>value\<close> (the result is \<open>None\<close>); otherwise an optional
  sign and the longest run of decimal digits are taken, and \<open>value\<close> becomes 0 when there
  is no digit, the nearest bound when the number does not fit, and the number otherwise.
  The stream's fail bit is set in all but the last case, and the program never looks at
  it.
\<close>

definition is_space :: "char \<Rightarrow> bool" where
  "is_space c = (c \<in> {CHR '' '', CHR 0x09, CHR 0x0A, CHR 0x0B, CHR 0x0C, CHR 0x0D})"

definition is_digit :: "char \<Rightarrow> bool" where
  "is_digit c = (48 \<le> (of_char c :: nat) \<and> (of_char c :: nat) \<le> 57)"

definition digits_value :: "string \<Rightarrow> int" where
  "digits_value ds = foldl (\<lambda>a c. 10 * a + (of_char c - 48)) 0 ds"

definition clamp_int :: "int \<Rightarrow> int32" where
  "clamp_int x =
     (if x < - 2147483648 then INT_MIN else if 2147483647 < x then INT_MAX else word_of_int x)"

definition extract_int :: "string \<Rightarrow> int32 option" where
  "extract_int line =
     (case dropWhile is_space line of
        [] \<Rightarrow> None
      | c # cs \<Rightarrow>
          (let negative = (c = CHR ''-'');
               rest = (if c = CHR ''-'' \<or> c = CHR ''+'' then cs else c # cs);
               ds = takeWhile is_digit rest
           in if ds = [] then Some 0
              else Some (clamp_int (if negative then - digits_value ds else digits_value ds))))"

text \<open>
  The \<^verbatim>\<open>while (std::getline(file, line))\<close> loop of \<^verbatim>\<open>load_values_from_csv\<close>, from line \<open>i\<close>
  of the file on: every line appends one value, the one extracted or, when nothing was
  extracted, what the uninitialised \<open>value\<close> holds. The file is given as the lines
  \<^verbatim>\<open>std::getline\<close> delivers (none when the file cannot be opened).
\<close>

fun load_lines :: "platform \<Rightarrow> nat \<Rightarrow> string list \<Rightarrow> int32 list" where
  "load_lines P i [] = []"
| "load_lines P i (line # lines) =
     (case extract_int line of
        None \<Rightarrow> unread_value P i
      | Some value \<Rightarrow> value) # load_lines P (Suc i) lines"

definition load_values_from_csv :: "platform \<Rightarrow> string list \<Rightarrow> int32 list" where
  "load_values_from_csv P lines = load_lines P 0 lines"

section \<open>Driver\<close>

text \<open>\<^verbatim>\<open>static_cast<int>(std::ceil(k * std::log2(n)))\<close>. For \<open>n \<le> 0\<close> the logarithm is
  minus infinity or not a number, and so is everything computed from it: the conversion
  to \<^verbatim>\<open>int\<close> is undefined. For \<open>n \<ge> 1\<close> the logarithm and the product are taken without
  rounding; they are exact in binary64 too for \<open>n = 1\<close>, for \<open>n = 2\<close> and for \<open>k = 0\<close>.\<close>

definition layer_count :: "int32 \<Rightarrow> int32 \<Rightarrow> error + int32" where
  "layer_count n k =
     (if sint n \<le> 0 then Inl UndefinedConversion
      else static_cast_int
             (Finite (real_of_int \<lceil>real_of_int (sint k) * log 2 (real_of_int (sint n))\<rceil>)))"

text \<open>\<^verbatim>\<open>*std::min_element(values.begin(), values.end())\<close>: the first smallest element;
  on an empty vector the end iterator is dereferenced.\<close>

definition min_element :: "int32 list \<Rightarrow> error + int32" where
  "min_element values =
     (case values of
        [] \<Rightarrow> Inl EmptyRange
      | x # xs \<Rightarrow> Inr (foldl (\<lambda>m y. if y <s m then y else m) x xs))"

definition initial_state :: run_state where
  "initial_state = \<lparr>timings = [], sizes = [], ticks = 0, events = []\<rparr>"

text \<open>
  \<^verbatim>\<open>main\<close> after the options are parsed: \<open>n\<close> and \<open>k\<close> as \<^verbatim>\<open>cxxopts\<close> delivers them, the
  file as its lines. The result is what the program prints (the smallest value and the
  total time) or the failure that ends it, and the state reached.
\<close>

definition main_program ::
  "platform \<Rightarrow> int32 \<Rightarrow> int32 \<Rightarrow> string list \<Rightarrow> (error + int32 \<times> real) \<times> run_state" where
  "main_program P n k lines =
     (let values = load_values_from_csv P lines in
      case layer_count n k of
        Inl e \<Rightarrow> (Inl e, initial_state)
      | Inr l \<Rightarrow>
          (case now P initial_state of (start_time, s1) \<Rightarrow>
             (case min_element values of
                Inl e \<Rightarrow> (Inl e, s1)
              | Inr smallest_value \<Rightarrow>
                  (case reverse_engineer_encoded_value P smallest_value l n k s1 of
                     (Inl e, s2) \<Rightarrow> (Inl e, s2)
                   | (Inr result, s2) \<Rightarrow>
                       (case now P s2 of (end_time, s3) \<Rightarrow>
                          (Inr (smallest_value, end_time - start_time), s3))))))"

section \<open>Functions used in the statements\<close>

text \<open>The next value as the specification words it: \<open>v / 2 - 1 / 2 - d / 2\<close> over the
  reals, truncated.\<close>

definition next_value :: "int32 \<Rightarrow> int32 \<Rightarrow> int32" where
  "next_value v d =
     word_of_int
       (trunc_toward_zero
          (real_of_int (sint v) / 2 - 1 / 2 - real_of_int (sint d) / 2))"

text \<open>The value that reaches depth 0, and the decode steps on the way there.\<close>

function final_value :: "int32 \<Rightarrow> int32 \<Rightarrow> int32" where
  "final_value v d = (if d = 0 then v else final_value (next_value v d) (d - 1))"
  by pat_completeness auto
termination
  by (relation "measure (\<lambda>(v, d). unat d)") (simp_all add: unat_minus_one unat_gt_0)

function decode_events :: "int32 \<Rightarrow> int32 \<Rightarrow> event list" where
  "decode_events v d =
     (if d = 0 then [] else DecodeStep d v # decode_events (next_value v d) (d - 1))"
  by pat_completeness auto
termination
  by (relation "measure (\<lambda>(v, d). unat d)") (simp_all add: unat_minus_one unat_gt_0)

text \<open>The samples that the events of a run say were appended, each with the depth of the
  call that appended it.\<close>

fun logged :: "event list \<Rightarrow> (int32 \<times> real \<times> int32) list" where
  "logged [] = []"
| "logged (SampleLogged d t sz # es) = (d, t, sz) # logged es"
| "logged (DecodeStep d v # es) = logged es"
| "logged (MapperCall v # es) = logged es"

fun decode_steps :: "event list \<Rightarrow> (int32 \<times> int32) list" where
  "decode_steps [] = []"
| "decode_steps (DecodeStep d v # es) = (d, v) # decode_steps es"
| "decode_steps (SampleLogged d t sz # es) = decode_steps es"
| "decode_steps (MapperCall v # es) = decode_steps es"

fun mapper_calls :: "event list \<Rightarrow> int32 list" where
  "mapper_calls [] = []"
| "mapper_calls (MapperCall v # es) = v # mapper_calls es"
| "mapper_calls (DecodeStep d v # es) = mapper_calls es"
| "mapper_calls (SampleLogged d t sz # es) = mapper_calls es"

text \<open>A line that does not start with a number: after the white space comes a character
  that is neither a digit nor a sign, or a sign with no digit after it.\<close>

definition malformed :: "string \<Rightarrow> bool" where
  "malformed line =
     (case dropWhile is_space line of
        [] \<Rightarrow> False
      | c # cs \<Rightarrow>
          if c = CHR ''-'' \<or> c = CHR ''+'' then (case cs of [] \<Rightarrow> True | c' # _ \<Rightarrow> \<not> is_digit c')
          else \<not> is_digit c)"

text \<open>The codec as the specification words it, over the reals.\<close>

definition spec_encode :: "real \<Rightarrow> int \<Rightarrow> real" where
  "spec_encode y D = 2 powi D * (y + real_of_int D / 2)"

definition spec_decode :: "real \<Rightarrow> int \<Rightarrow> real" where
  "spec_decode x D = x / 2 powi D - real_of_int D / 2"

text \<open>The reals that are finite \<^verbatim>\<open>double\<close>s.\<close>

definition representable :: "real \<Rightarrow> bool" where
  "representable z =
     (\<exists>k e. z = of_int k * 2 powi e \<and> \<bar>k\<bar> < 2 ^ 53 \<and> - 1074 \<le> e \<and> \<bar>z\<bar> \<le> DBL_MAX)"

text \<open>The digit at position \<open>j\<close> as the specification words it, on unbounded
  integers: \<open>(i / j!) mod (j + 1)\<close>.\<close>

definition spec_digit :: "int \<Rightarrow> nat \<Rightarrow> int" where
  "spec_digit i j = (i div fact j) mod (int j + 1)"

text \<open>The platform of the examples: a clock that advances 100 ns between readings, the
  three pointers of a \<^verbatim>\<open>std::vector\<close> on a 64-bit target, and 99 in the unwritten
  variable.\<close>

definition example_platform :: platform where
  "example_platform =
     \<lparr>clock = (\<lambda>t. 100 * real t), sizeof_vector = 24, unread_value = (\<lambda>i. 99)\<rparr>"

section \<open>Rounding\<close>

lemma nearest_even_of_int: "nearest_even (of_int n) = n"
  by (simp add: nearest_even_def)

lemma nearest_even_error: "\<bar>of_int (nearest_even m) - m\<bar> \<le> 1 / 2"
  unfolding nearest_even_def Let_def by (simp; linarith)

lemma powr_powi: "(2 :: real) powr (of_int n) = 2 powi n"
  by (simp add: powr_real_of_int')

lemma log2_bounds:
  assumes "0 < x"
  shows "2 powi \<lfloor>log 2 x\<rfloor> \<le> x" and "x < 2 powi (\<lfloor>log 2 x\<rfloor> + 1)"
proof -
  have "of_int \<lfloor>log 2 x\<rfloor> \<le> log 2 x"
    by simp
  then have "2 powr (of_int \<lfloor>log 2 x\<rfloor>) \<le> x"
    using assms by (simp only: le_log_iff [symmetric])
  then show "2 powi \<lfloor>log 2 x\<rfloor> \<le> x"
    by (simp only: powr_powi)
  have "log 2 x < of_int (\<lfloor>log 2 x\<rfloor> + 1)"
    by linarith
  then have "x < 2 powr (of_int (\<lfloor>log 2 x\<rfloor> + 1))"
    using assms by (simp only: log_less_iff)
  then show "x < 2 powi (\<lfloor>log 2 x\<rfloor> + 1)"
    by (simp only: powr_powi)
qed

lemma powi_mono: "a \<le> b \<Longrightarrow> (2 :: real) powi a \<le> 2 powi b"
  by (rule power_int_increasing) simp_all

lemma powi_less_log:
  assumes "0 < x" and "x < 2 powi n"
  shows "\<lfloor>log 2 x\<rfloor> < n"
proof (rule ccontr)
  assume "\<not> \<lfloor>log 2 x\<rfloor> < n"
  then have "n \<le> \<lfloor>log 2 x\<rfloor>"
    by simp
  then have "(2 :: real) powi n \<le> 2 powi \<lfloor>log 2 x\<rfloor>"
    by (rule powi_mono)
  also have "\<dots> \<le> x"
    using assms(1) by (rule log2_bounds)
  finally show False
    using assms(2) by simp
qed

text \<open>A number that fits the format is left alone.\<close>

lemma binade_representable:
  assumes "z = of_int k * 2 powi e" and "\<bar>k\<bar> < 2 ^ 53" and "- 1074 \<le> e" and "z \<noteq> 0"
  shows "binade z - 52 \<le> e"
proof -
  have "\<bar>z\<bar> = of_int \<bar>k\<bar> * 2 powi e"
    by (simp add: assms(1) abs_mult)
  also have "\<dots> < 2 ^ 53 * 2 powi e"
  proof -
    have "real_of_int \<bar>k\<bar> < real_of_int (2 ^ 53)"
      using assms(2) by (simp only: of_int_less_iff)
    then show ?thesis
      by simp
  qed
  also have "\<dots> = 2 powi (53 + e)"
    by (simp add: power_int_add)
  finally have "\<bar>z\<bar> < 2 powi (53 + e)" .
  moreover have "0 < \<bar>z\<bar>"
    using assms(4) by simp
  ultimately have "\<lfloor>log 2 \<bar>z\<bar>\<rfloor> < 53 + e"
    by (rule powi_less_log [rotated])
  then show ?thesis
    using assms(3) by (simp add: binade_def)
qed

lemma round64_representable:
  assumes "representable z"
  shows "round64 z = Finite z"
proof (cases "z = 0")
  case True
  then show ?thesis
    by (simp add: round64_def)
next
  case False
  from assms obtain k e where
    z: "z = of_int k * 2 powi e" and k: "\<bar>k\<bar> < 2 ^ 53" and e: "- 1074 \<le> e"
    and m: "\<bar>z\<bar> \<le> DBL_MAX"
    unfolding representable_def by blast
  define s where "s = e - (binade z - 52)"
  have s: "0 \<le> s"
    using binade_representable [OF z k e False] by (simp add: s_def)
  have "z / ulp z = of_int k * (2 powi e / 2 powi (binade z - 52))"
    by (simp add: z ulp_def)
  also have "2 powi e / 2 powi (binade z - 52) = (2 :: real) powi s"
    by (simp add: s_def power_int_diff)
  also have "(2 :: real) powi s = of_int (2 ^ nat s)"
    using s by (simp add: power_int_def)
  finally have "z / ulp z = of_int (k * 2 ^ nat s)"
    by simp
  then have "of_int (nearest_even (z / ulp z)) * ulp z = z / ulp z * ulp z"
    by (simp only: nearest_even_of_int)
  also have "\<dots> = z"
    by (simp add: ulp_def)
  finally show ?thesis
    using False m by (simp add: round64_def Let_def)
qed


lemma ulp_pos: "0 < ulp x"
  by (simp add: ulp_def)

lemma round64_cases:
  assumes "round64 x = Finite r"
  shows "r = of_int (nearest_even (x / ulp x)) * ulp x \<and> \<bar>r\<bar> \<le> DBL_MAX"
proof (cases "x = 0")
  case True
  with assms show ?thesis
    by (simp add: round64_def nearest_even_def DBL_MAX_def)
next
  case False
  with assms show ?thesis
    by (simp add: round64_def Let_def split: if_splits)
qed

text \<open>Rounding moves a number by at most half a unit in its last place.\<close>

lemma round64_error:
  assumes "round64 x = Finite r"
  shows "\<bar>r - x\<bar> \<le> ulp x / 2"
proof -
  let ?m = "x / ulp x"
  have r: "r = of_int (nearest_even ?m) * ulp x"
    using round64_cases [OF assms] by simp
  have "r - x = (of_int (nearest_even ?m) - ?m) * ulp x"
    using ulp_pos [of x] by (simp add: r field_simps)
  then have "\<bar>r - x\<bar> = \<bar>of_int (nearest_even ?m) - ?m\<bar> * ulp x"
    using ulp_pos [of x] by (simp add: abs_mult)
  also have "\<dots> \<le> 1 / 2 * ulp x"
    using nearest_even_error [of ?m] ulp_pos [of x] by (intro mult_right_mono) simp_all
  finally show ?thesis
    by simp
qed

lemma significand_bound:
  assumes "x \<noteq> 0"
  shows "\<bar>x / ulp x\<bar> < 2 ^ 53"
proof -
  have "\<bar>x\<bar> < 2 powi (\<lfloor>log 2 \<bar>x\<bar>\<rfloor> + 1)"
    using assms by (intro log2_bounds) simp
  also have "\<dots> \<le> 2 powi (binade x + 1)"
    by (rule powi_mono) (simp add: binade_def)
  also have "\<dots> = 2 ^ 53 * ulp x"
    by (simp add: ulp_def power_int_add power_int_diff)
  finally have "\<bar>x\<bar> / ulp x < 2 ^ 53"
    using ulp_pos [of x] by (simp add: field_simps)
  then show ?thesis
    using ulp_pos [of x] by (simp add: abs_divide)
qed

text \<open>What rounding returns fits the format.\<close>

lemma round64_result_representable:
  assumes "round64 x = Finite r"
  shows "representable r"
proof (cases "x = 0")
  case True
  with assms have "r = 0"
    by (simp add: round64_def)
  then have "r = of_int 0 * 2 powi 0 \<and> \<bar>0 :: int\<bar> < 2 ^ 53 \<and> (- 1074 :: int) \<le> 0 \<and> \<bar>r\<bar> \<le> DBL_MAX"
    by (simp add: DBL_MAX_def)
  then show ?thesis
    unfolding representable_def by blast
next
  case False
  let ?K = "nearest_even (x / ulp x)"
  have r: "r = of_int ?K * ulp x" and m: "\<bar>r\<bar> \<le> DBL_MAX"
    using round64_cases [OF assms] by blast+
  have "\<bar>of_int ?K - x / ulp x\<bar> \<le> 1 / 2"
    by (rule nearest_even_error)
  then have "\<bar>real_of_int ?K\<bar> < 2 ^ 53 + 1"
    using significand_bound [OF False] by linarith
  then have "real_of_int \<bar>?K\<bar> < real_of_int (2 ^ 53 + 1)"
    by simp
  then have "\<bar>?K\<bar> < 2 ^ 53 + 1"
    by (simp only: of_int_less_iff)
  then have K: "\<bar>?K\<bar> \<le> 2 ^ 53"
    by simp
  have b: "- 1022 \<le> binade x"
    by (simp add: binade_def)
  show ?thesis
  proof (cases "\<bar>?K\<bar> = 2 ^ 53")
    case False
    with K have "\<bar>?K\<bar> < 2 ^ 53"
      by simp
    moreover have "r = of_int ?K * 2 powi (binade x - 52)"
      by (simp add: r ulp_def)
    moreover have "- 1074 \<le> binade x - 52"
      using b by simp
    ultimately show ?thesis
      unfolding representable_def using m by blast
  next
    case True
    then have "?K = sgn ?K * 2 ^ 53"
      by (cases "0 < ?K") (simp_all add: sgn_if)
    then have "real_of_int ?K = real_of_int (sgn ?K * 2 ^ 53)"
      by (simp only:)
    then have "real_of_int ?K = of_int (sgn ?K) * 2 ^ 53"
      by simp
    then have "r = of_int (sgn ?K) * (2 ^ 53 * 2 powi (binade x - 52))"
      by (simp add: r ulp_def)
    also have "2 ^ 53 * 2 powi (binade x - 52) = (2 :: real) powi (binade x + 1)"
      by (simp add: power_int_add power_int_diff)
    finally have "r = of_int (sgn ?K) * 2 powi (binade x + 1)" .
    moreover have "\<bar>sgn ?K\<bar> < 2 ^ 53"
      by (simp add: sgn_if)
    moreover have "- 1074 \<le> binade x + 1"
      using b by simp
    ultimately show ?thesis
      unfolding representable_def using m by blast
  qed
qed

lemma representable_dyadic:
  assumes "\<bar>k\<bar> < 2 ^ 53" and "- 1074 \<le> e" and "e \<le> 971"
  shows "representable (of_int k * 2 powi e)"
proof -
  have "\<bar>k\<bar> \<le> 2 ^ 53 - 1"
    using assms(1) by simp
  then have "real_of_int \<bar>k\<bar> \<le> real_of_int (2 ^ 53 - 1)"
    by (simp only: of_int_le_iff)
  moreover have "(2 :: real) powi e \<le> 2 powi 971"
    using assms(3) by (rule powi_mono)
  ultimately have "real_of_int \<bar>k\<bar> * 2 powi e \<le> real_of_int (2 ^ 53 - 1) * 2 powi 971"
    by (intro mult_mono) simp_all
  then have "\<bar>of_int k * 2 powi e\<bar> \<le> DBL_MAX"
    by (simp add: abs_mult DBL_MAX_def)
  then show ?thesis
    unfolding representable_def using assms(1,2) by blast
qed

lemma representable_half:
  assumes "\<bar>h\<bar> < 2 ^ 53"
  shows "representable (real_of_int h / 2)"
  using representable_dyadic [OF assms, of "- 1"] by simp

lemma representable_int:
  assumes "\<bar>h\<bar> < 2 ^ 53"
  shows "representable (real_of_int h)"
  using representable_dyadic [OF assms, of 0] by simp

lemma representable_power:
  assumes "0 \<le> D" and "D < 1024"
  shows "representable (2 powi D)"
proof -
  have "D \<le> 1023"
    using assms(2) by simp
  then have "(2 :: real) powi D \<le> 2 powi 1023"
    by (rule powi_mono)
  also have "(2 :: real) powi 1023 \<le> DBL_MAX"
    by (simp add: DBL_MAX_def)
  finally have "\<bar>(2 :: real) powi D\<bar> \<le> DBL_MAX"
    by simp
  moreover have "(2 :: real) powi D = of_int 1 * 2 powi D"
    by simp
  moreover have "\<bar>1 :: int\<bar> < 2 ^ 53"
    by simp
  moreover have "- 1074 \<le> D"
    using assms(1) by simp
  ultimately show ?thesis
    unfolding representable_def by blast
qed

text \<open>Scaling a \<^verbatim>\<open>double\<close> by a power of two is exact while the result stays in range.\<close>

lemma representable_scale:
  assumes "representable a" and "0 \<le> D" and "\<bar>2 powi D * a\<bar> \<le> DBL_MAX"
  shows "representable (2 powi D * a)"
proof -
  from assms(1) obtain k e where
    a: "a = of_int k * 2 powi e" and k: "\<bar>k\<bar> < 2 ^ 53" and e: "- 1074 \<le> e"
    unfolding representable_def by blast
  have "2 powi D * a = of_int k * 2 powi (e + D)"
    by (simp add: a power_int_add)
  moreover have "- 1074 \<le> e + D"
    using e assms(2) by simp
  ultimately show ?thesis
    unfolding representable_def using k assms(3) by blast
qed

section \<open>The codec\<close>

lemma int32_magnitude: "\<bar>sint (w :: int32)\<bar> < 2 ^ 53"
  using sint_ge [of w] sint_lt [of w] by simp

lemma round64_half: "\<bar>h\<bar> < 2 ^ 53 \<Longrightarrow> round64 (real_of_int h / 2) = Finite (real_of_int h / 2)"
  by (intro round64_representable representable_half)

lemma half_depth: "d_div (of_int32 D) (Finite 2) = Finite (real_of_int (sint D) / 2)"
  unfolding of_int32_def using round64_half [OF int32_magnitude [of D]] by simp

lemma pow_2_in_range:
  assumes "0 \<le> sint D" and "sint D < 1024"
  shows "pow_2 D = Finite (2 powi (sint D))"
  using assms by (simp add: pow_2_def)

text \<open>From depth 1024 on \<^verbatim>\<open>pow(2, D)\<close> is infinite, and the round trip ends in a NaN.\<close>

lemma roundtrip_overflow:
  assumes "1024 \<le> sint D"
  shows "decode (encode Y D) D = NaN"
proof -
  have p: "pow_2 D = PosInf"
    using assms by (simp add: pow_2_def)
  obtain S where S: "d_add Y (d_div (of_int32 D) (Finite 2)) = S"
    by simp
  have "d_div (d_mul PosInf S) PosInf = NaN"
    by (cases S) simp_all
  then show ?thesis
    by (simp add: decode_def encode_def p S d_sub_def)
qed

text \<open>Below depth 1024, and while the product stays in range, the scaling by \<open>2 ^ D\<close> and
  back is exact: only the sum and the difference round.\<close>

lemma roundtrip_value:
  assumes "0 \<le> sint D" and "sint D < 1024"
    and "round64 (y + real_of_int (sint D) / 2) = Finite a"
    and "\<bar>2 powi (sint D) * a\<bar> \<le> DBL_MAX"
  shows "decode (encode (Finite y) D) D = round64 (a - real_of_int (sint D) / 2)"
proof -
  have a: "representable a"
    using assms(3) by (rule round64_result_representable)
  have nz: "(2 :: real) powi (sint D) \<noteq> 0"
    by simp
  have "encode (Finite y) D = round64 (2 powi (sint D) * a)"
    by (simp add: encode_def pow_2_in_range [OF assms(1,2)] half_depth assms(3)
        del: of_int_sint)
  also have "\<dots> = Finite (2 powi (sint D) * a)"
    using a assms(1,4) by (intro round64_representable representable_scale)
  finally have e: "encode (Finite y) D = Finite (2 powi (sint D) * a)" .
  have "d_div (Finite (2 powi (sint D) * a)) (pow_2 D) = round64 a"
    using nz by (simp add: pow_2_in_range [OF assms(1,2)])
  also have "\<dots> = Finite a"
    using a by (rule round64_representable)
  finally show ?thesis
    by (simp add: decode_def e half_depth d_sub_def)
qed

lemma roundtrip_exact:
  assumes "0 \<le> sint D" and "sint D < 1024"
    and "representable y" and "representable (y + real_of_int (sint D) / 2)"
    and "\<bar>2 powi (sint D) * (y + real_of_int (sint D) / 2)\<bar> \<le> DBL_MAX"
  shows "decode (encode (Finite y) D) D = Finite y"
proof -
  have "round64 (y + real_of_int (sint D) / 2) = Finite (y + real_of_int (sint D) / 2)"
    using assms(4) by (rule round64_representable)
  from roundtrip_value [OF assms(1,2) this assms(5)]
  show ?thesis
    using round64_representable [OF assms(3)] by simp
qed

lemma roundtrip_tolerance:
  assumes "0 \<le> sint D" and "sint D < 1024"
    and "round64 (y + real_of_int (sint D) / 2) = Finite a"
    and "\<bar>2 powi (sint D) * a\<bar> \<le> DBL_MAX"
    and "decode (encode (Finite y) D) D = Finite r"
  shows "\<bar>r - y\<bar> \<le>
    ulp (y + real_of_int (sint D) / 2) / 2 + ulp (a - real_of_int (sint D) / 2) / 2"
proof -
  have "round64 (a - real_of_int (sint D) / 2) = Finite r"
    using roundtrip_value [OF assms(1-4)] assms(5) by simp
  then have "\<bar>r - (a - real_of_int (sint D) / 2)\<bar> \<le> ulp (a - real_of_int (sint D) / 2) / 2"
    by (rule round64_error)
  moreover have "\<bar>a - (y + real_of_int (sint D) / 2)\<bar> \<le> ulp (y + real_of_int (sint D) / 2) / 2"
    using assms(3) by (rule round64_error)
  ultimately show ?thesis
    by linarith
qed

lemma spec_roundtrip: "spec_decode (spec_encode y D) D = y"
  by (simp add: spec_encode_def spec_decode_def)

text \<open>An ordinary depth at which the sum rounds: \<open>2 ^ -60 + 1\<close> is rounded to 1, and the
  round trip of \<open>2 ^ -60\<close> at depth 2 gives 0.\<close>

lemma binade_one_to_two:
  assumes "1 \<le> x" and "x < 2"
  shows "binade x = 0"
proof -
  have x: "0 < x"
    using assms(1) by simp
  have "0 \<le> log 2 x"
    using assms(1) x by simp
  moreover have "log 2 x < 1"
    using assms(2) x by (simp add: log_less_iff)
  ultimately have "\<lfloor>log 2 x\<rfloor> = 0"
    by linarith
  then show ?thesis
    using x by (simp add: binade_def)
qed

lemma round64_above_one: "round64 (2 powi (- 60) + 1) = Finite 1"
proof -
  let ?x = "(2 :: real) powi (- 60) + 1"
  have p: "(2 :: real) powi (- 60) = 1 / 2 ^ 60"
    by (simp add: power_int_minus field_simps)
  have b: "binade ?x = 0"
    by (rule binade_one_to_two) (simp_all add: p)
  have u: "ulp ?x = 1 / 2 ^ 52"
    unfolding ulp_def b by (simp add: power_int_minus field_simps)
  have "?x / ulp ?x = ?x / (1 / 2 ^ 52)"
    by (simp only: u)
  also have "\<dots> = 2 ^ 52 + 1 / 2 ^ 8"
    by (simp add: p)
  finally have m: "?x / ulp ?x = 2 ^ 52 + 1 / 2 ^ 8" .
  have "\<lfloor>(2 :: real) ^ 52 + 1 / 2 ^ 8\<rfloor> = 2 ^ 52"
    by (rule floor_unique) simp_all
  then have "nearest_even (?x / ulp ?x) = 2 ^ 52"
    unfolding m by (simp add: nearest_even_def Let_def)
  then have r: "of_int (nearest_even (?x / ulp ?x)) * ulp ?x = 1"
    by (simp only: u) simp
  have nz: "?x \<noteq> 0"
    by (simp add: p)
  have "round64 ?x =
      (if DBL_MAX < \<bar>1 :: real\<bar> then (if 0 < ?x then PosInf else NegInf) else Finite 1)"
    by (simp only: round64_def nz if_False Let_def r)
  then show ?thesis
    by (simp add: DBL_MAX_def)
qed

lemma roundtrip_loses_small_value:
  "decode (encode (Finite (2 powi (- 60))) 2) 2 = Finite 0"
proof -
  have a: "round64 (2 powi (- 60) + real_of_int (sint (2 :: int32)) / 2) = Finite 1"
    using round64_above_one by simp
  have m: "\<bar>2 powi (sint (2 :: int32)) * (1 :: real)\<bar> \<le> DBL_MAX"
    by (simp add: DBL_MAX_def)
  have "decode (encode (Finite (2 powi (- 60))) 2) 2 =
      round64 (1 - real_of_int (sint (2 :: int32)) / 2)"
    by (rule roundtrip_value [OF _ _ a m]) simp_all
  then show ?thesis
    by (simp add: round64_def)
qed

text \<open>
  C1, as the claim states it, fails on \<^verbatim>\<open>speedy_min.cpp\<close>: at depth 1024 \<^verbatim>\<open>pow(2, D)\<close> is
  infinite, and the round trip from 0 gives a NaN. At depth 2 the round trip of
  \<open>2 ^ -60\<close> gives 0.
\<close>

theorem codec_roundtrip_counterexample:
  "0 \<le> sint (1024 :: int32) \<and> decode (encode (Finite 0) 1024) 1024 = NaN \<and>
   decode (encode (Finite 0) 1024) 1024 \<noteq> Finite 0 \<and>
   decode (encode (Finite (2 powi (- 60))) 2) 2 = Finite 0 \<and>
   (2 :: real) powi (- 60) \<noteq> 0"
  using roundtrip_overflow [of 1024 "Finite 0"] roundtrip_loses_small_value
  by (simp del: power_int_minus)

text \<open>
  C1, amended. Over the reals the two formulas are inverses of each other. In the
  binary64 arithmetic of \<^verbatim>\<open>speedy_min.cpp\<close>: from depth 1024 on the round trip gives a NaN,
  whatever \<open>Y\<close> is. For \<open>0 \<le> D < 1024\<close>, and while \<open>2 ^ D\<close> times the rounded sum
  \<open>Y + D / 2\<close> stays within \<open>DBL_MAX\<close>, it gives \<open>Y\<close> itself when \<open>Y + D / 2\<close> needs no
  rounding, and otherwise a result that differs from \<open>Y\<close> by at most half a unit in the
  last place of the sum \<open>Y + D / 2\<close> plus half a unit in the last place of the difference
  taken on the way back.
\<close>

theorem codec_roundtrip:
  "spec_decode (spec_encode y d) d = y \<and>
   (1024 \<le> sint D \<longrightarrow> decode (encode Y D) D = NaN) \<and>
   (0 \<le> sint D \<and> sint D < 1024 \<and> representable y \<and>
      representable (y + real_of_int (sint D) / 2) \<and>
      \<bar>2 powi (sint D) * (y + real_of_int (sint D) / 2)\<bar> \<le> DBL_MAX \<longrightarrow>
    decode (encode (Finite y) D) D = Finite y) \<and>
   (0 \<le> sint D \<and> sint D < 1024 \<and>
      round64 (y + real_of_int (sint D) / 2) = Finite a \<and>
      \<bar>2 powi (sint D) * a\<bar> \<le> DBL_MAX \<and>
      decode (encode (Finite y) D) D = Finite r \<longrightarrow>
    \<bar>r - y\<bar> \<le>
      ulp (y + real_of_int (sint D) / 2) / 2 + ulp (a - real_of_int (sint D) / 2) / 2)"
  using spec_roundtrip roundtrip_overflow roundtrip_exact roundtrip_tolerance by blast

theorem codec_roundtrip_witness:
  "decode (encode (Finite (5 / 2)) 3) 3 = Finite (5 / 2) \<and>
   decode (encode (Finite 0) 1024) 1024 = NaN \<and>
   decode (encode (Finite (2 powi (- 60))) 2) 2 = Finite 0 \<and>
   \<bar>0 - 2 powi (- 60)\<bar> \<le>
     ulp (2 powi (- 60) + real_of_int (sint (2 :: int32)) / 2) / 2 +
     ulp (1 - real_of_int (sint (2 :: int32)) / 2) / 2"
proof -
  have y: "representable (5 / 2)"
    using representable_half [of 5] by simp
  have s: "representable (5 / 2 + real_of_int (sint (3 :: int32)) / 2)"
    using representable_int [of 4] by simp
  have m: "\<bar>2 powi (sint (3 :: int32)) * (5 / 2 + real_of_int (sint (3 :: int32)) / 2)\<bar> \<le> DBL_MAX"
    by (simp add: DBL_MAX_def)
  have d: "0 \<le> sint (3 :: int32)" "sint (3 :: int32) < 1024" "1024 \<le> sint (1024 :: int32)"
    "0 \<le> sint (2 :: int32)" "sint (2 :: int32) < 1024"
    by simp_all
  have a: "round64 (2 powi (- 60) + real_of_int (sint (2 :: int32)) / 2) = Finite 1"
    using round64_above_one by (simp del: power_int_minus)
  have b: "\<bar>2 powi (sint (2 :: int32)) * (1 :: real)\<bar> \<le> DBL_MAX"
    by (simp add: DBL_MAX_def)
  note r = roundtrip_loses_small_value
  show ?thesis
    using codec_roundtrip [of "5 / 2" 0 3 "Finite 0" 0 0]
      codec_roundtrip [of 0 0 1024 "Finite 0" 0 0]
      codec_roundtrip [of "2 powi (- 60)" 0 2 "Finite 0" 1 0] y s m d a b r
    by blast
qed

section \<open>The unwind step\<close>

lemma trunc_half: "trunc_toward_zero (real_of_int a / 2) = a sdiv 2"
proof (cases "a < 0")
  case True
  have "\<lceil>real_of_int a / 2\<rceil> = - \<lfloor>real_of_int (- a) / real_of_int 2\<rfloor>"
    by (simp add: ceiling_def)
  also have "\<dots> = - ((- a) div 2)"
    by (simp only: floor_divide_of_int_eq)
  finally show ?thesis
    using True by (simp add: trunc_toward_zero_def signed_divide_int_def)
next
  case False
  have "\<lfloor>real_of_int a / real_of_int 2\<rfloor> = a div 2"
    by (simp only: floor_divide_of_int_eq)
  then show ?thesis
    using False by (simp add: trunc_toward_zero_def signed_divide_int_def sgn_if)
qed

lemma next_formula:
  "real_of_int (sint v) / 2 - 1 / 2 - real_of_int (sint d) / 2 =
   real_of_int (sint v - 1 - sint d) / 2"
  by (simp add: field_simps)

lemma trunc_next:
  "trunc_toward_zero (real_of_int (sint v) / 2 - 1 / 2 - real_of_int (sint d) / 2) =
   (sint v - 1 - sint d) sdiv 2"
  by (simp only: next_formula trunc_half)

text \<open>In the unwinder no operation rounds: with an \<^verbatim>\<open>int\<close> value and depth, every
  intermediate result is half an integer far below \<open>2 ^ 53\<close>.\<close>

lemma decode_int32: "decode (of_int32 v) 1 = Finite (real_of_int (sint v - 1) / 2)"
proof -
  have v: "- 2147483648 \<le> sint v" "sint v \<le> 2147483647"
    using sint_ge [of v] sint_lt [of v] by simp_all
  have A: "d_div (of_int32 v) (pow_2 1) = Finite (real_of_int (sint v) / 2)"
    using round64_half [OF int32_magnitude [of v]] by (simp add: of_int32_def pow_2_def)
  have B: "d_div (of_int32 1) (Finite 2) = Finite (1 / 2)"
    using half_depth [of 1] by simp
  have "decode (of_int32 v) 1 =
      d_add (Finite (real_of_int (sint v) / 2)) (d_neg (Finite (1 / 2)))"
    by (simp only: decode_def d_sub_def A B)
  also have "\<dots> = round64 (real_of_int (sint v) / 2 + - (1 / 2))"
    by (simp only: d_neg.simps d_add.simps)
  also have "real_of_int (sint v) / 2 + - (1 / 2) = real_of_int (sint v - 1) / 2"
    by (simp add: field_simps)
  also have "round64 (real_of_int (sint v - 1) / 2) = Finite (real_of_int (sint v - 1) / 2)"
    using v by (intro round64_half) simp
  finally show ?thesis .
qed

lemma unwind_argument:
  "d_sub (decode (of_int32 v) 1) (d_div (of_int32 d) (Finite 2)) =
   Finite (real_of_int (sint v - 1 - sint d) / 2)"
proof -
  have r: "- 2147483648 \<le> sint v" "sint v \<le> 2147483647"
    "- 2147483648 \<le> sint d" "sint d \<le> 2147483647"
    using sint_ge [of v] sint_lt [of v] sint_ge [of d] sint_lt [of d] by simp_all
  have "d_sub (decode (of_int32 v) 1) (d_div (of_int32 d) (Finite 2)) =
      round64 (real_of_int (sint v - 1) / 2 + - (real_of_int (sint d) / 2))"
    by (simp only: decode_int32 half_depth d_sub_def d_neg.simps d_add.simps)
  also have "real_of_int (sint v - 1) / 2 + - (real_of_int (sint d) / 2) =
      real_of_int (sint v - 1 - sint d) / 2"
    by (simp add: field_simps)
  also have "round64 (real_of_int (sint v - 1 - sint d) / 2) =
      Finite (real_of_int (sint v - 1 - sint d) / 2)"
    using r by (intro round64_half) simp
  finally show ?thesis .
qed

text \<open>The conversion back to \<^verbatim>\<open>int\<close> never leaves the range, whatever the value and the
  depth are.\<close>

lemma next_in_range:
  fixes v d :: int32
  shows "- 2147483648 \<le> (sint v - 1 - sint d) sdiv 2 \<and>
    (sint v - 1 - sint d) sdiv 2 \<le> 2147483647"
proof -
  have "- 2147483648 \<le> sint v" "sint v \<le> 2147483647"
    "- 2147483648 \<le> sint d" "sint d \<le> 2147483647"
    using sint_ge [of v] sint_lt [of v] sint_ge [of d] sint_lt [of d] by simp_all
  then show ?thesis
    by (simp add: signed_divide_int_def sgn_if) linarith
qed

lemma next_value_eq: "next_value v d = word_of_int ((sint v - 1 - sint d) sdiv 2)"
  unfolding next_value_def trunc_next ..

lemma static_cast_next:
  "static_cast_int (d_sub (decode (of_int32 v) 1) (d_div (of_int32 d) (Finite 2))) =
   Inr (next_value v d)"
  unfolding unwind_argument next_value_eq
  using next_in_range [of v d] by (simp only: static_cast_int.simps trunc_half Let_def) simp

lemma sint_next_value: "sint (next_value v d) = (sint v - 1 - sint d) sdiv 2"
  unfolding next_value_eq
  using next_in_range [of v d]
  by (simp add: sint_sbintrunc' signed_take_bit_int_eq_self)

declare reverse_engineer_encoded_value.simps [simp del]
declare final_value.simps [simp del]
declare decode_events.simps [simp del]
declare ithPermutation_loop.simps [simp del]

lemma unwinder_zero:
  "reverse_engineer_encoded_value P v 0 n k s =
   (ithPermutation n k v, log_event (MapperCall v) s)"
  by (simp add: reverse_engineer_encoded_value.simps)

lemma unwinder_step:
  assumes "d \<noteq> 0"
  shows "reverse_engineer_encoded_value P v d n k s =
    (case reverse_engineer_encoded_value P (next_value v d) (d - 1) n k
            (log_event (DecodeStep d v) (snd (now P s))) of
       (Inl e, s2) \<Rightarrow> (Inl e, s2)
     | (Inr result, s2) \<Rightarrow>
         (Inr result,
          log_event (SampleLogged d (fst (now P s2) - fst (now P s)) (sizeof_vector P))
            (push_sample (fst (now P s2) - fst (now P s)) (sizeof_vector P)
              (snd (now P s2)))))"
proof -
  have "reverse_engineer_encoded_value P v d n k s =
    (case now P s of (start_time, s1) \<Rightarrow>
       (case reverse_engineer_encoded_value P (next_value v d) (d - 1) n k
               (log_event (DecodeStep d v) s1) of
          (Inl e, s2) \<Rightarrow> (Inl e, s2)
        | (Inr result, s2) \<Rightarrow>
            (case now P s2 of (end_time, s3) \<Rightarrow>
               (Inr result,
                log_event (SampleLogged d (end_time - start_time) (sizeof_vector P))
                  (push_sample (end_time - start_time) (sizeof_vector P) s3)))))"
    by (subst reverse_engineer_encoded_value.simps)
      (simp only: assms if_False Let_def static_cast_next sum.case)
  then show ?thesis
    by (simp split: prod.splits sum.splits)
qed

lemma final_value_zero: "final_value v 0 = v"
  by (simp add: final_value.simps)

lemma final_value_step:
  "d \<noteq> 0 \<Longrightarrow> final_value v d = final_value (next_value v d) (d - 1)"
  by (subst final_value.simps) simp

lemma decode_events_zero: "decode_events v 0 = []"
  by (simp add: decode_events.simps)

lemma decode_events_step:
  "d \<noteq> 0 \<Longrightarrow> decode_events v d = DecodeStep d v # decode_events (next_value v d) (d - 1)"
  by (subst decode_events.simps) simp

lemma depth_Suc:
  fixes d :: int32
  assumes "Suc m = unat d"
  shows "d \<noteq> 0" and "unat (d - 1) = m" and "of_nat (Suc m) = d"
proof -
  show "d \<noteq> 0"
    using assms by auto
  then show "unat (d - 1) = m"
    using assms by (simp add: unat_minus_one)
  show "of_nat (Suc m) = d"
    by (simp add: assms)
qed

section \<open>What a call of the unwinder returns and leaves behind\<close>

text \<open>The sample that the call at depth \<open>Suc i\<close> appends, in a run that started at depth
  \<open>m\<close> when \<open>t\<close> clock readings had been taken: the time between reading \<open>t + m - Suc i\<close>,
  taken when that call began, and reading \<open>t + m + i\<close>, taken when its inner call was
  back.\<close>

lemma unwinder_success:
  assumes "ithPermutation n k (final_value v d) = Inr r"
  shows "reverse_engineer_encoded_value P v d n k s =
    (Inr r,
     s\<lparr>timings := timings s @
          map (\<lambda>i. clock P (ticks s + unat d + i) - clock P (ticks s + unat d - Suc i))
            [0..<unat d],
       sizes := sizes s @ replicate (unat d) (sizeof_vector P),
       ticks := ticks s + 2 * unat d,
       events := events s @ decode_events v d @
          MapperCall (final_value v d) #
          map (\<lambda>i. SampleLogged (of_nat (Suc i))
                 (clock P (ticks s + unat d + i) - clock P (ticks s + unat d - Suc i))
                 (sizeof_vector P))
            [0..<unat d]\<rparr>)"
  using assms
proof (induction "unat d" arbitrary: d v s)
  case 0
  then have "d = 0"
    by (simp add: unat_eq_zero)
  with 0 show ?case
    by (simp add: unwinder_zero final_value_zero decode_events_zero log_event_def)
next
  case (Suc m)
  note d = depth_Suc [OF Suc.hyps(2)]
  let ?s1 = "log_event (DecodeStep d v) (snd (now P s))"
  have fin: "final_value v d = final_value (next_value v d) (d - 1)"
    using d(1) by (rule final_value_step)
  have inner: "ithPermutation n k (final_value (next_value v d) (d - 1)) = Inr r"
    using Suc.prems fin by simp
  have m: "unat d = Suc m"
    using Suc.hyps(2) by simp
  have cong1: "map (\<lambda>i. clock P (Suc (ticks s) + m + i) - clock P (Suc (ticks s) + m - Suc i)) [0..<m]
      = map (\<lambda>i. clock P (ticks s + Suc m + i) - clock P (ticks s + Suc m - Suc i)) [0..<m]"
    by (rule map_cong) simp_all
  have cong2: "map (\<lambda>i. SampleLogged (of_nat (Suc i))
          (clock P (Suc (ticks s) + m + i) - clock P (Suc (ticks s) + m - Suc i)) (sizeof_vector P)) [0..<m]
      = map (\<lambda>i. SampleLogged (of_nat (Suc i))
          (clock P (ticks s + Suc m + i) - clock P (ticks s + Suc m - Suc i)) (sizeof_vector P)) [0..<m]"
    by (rule map_cong) simp_all
  have IH: "reverse_engineer_encoded_value P (next_value v d) (d - 1) n k ?s1 =
    (Inr r,
     ?s1\<lparr>timings := timings ?s1 @
          map (\<lambda>i. clock P (ticks ?s1 + unat (d - 1) + i) -
                 clock P (ticks ?s1 + unat (d - 1) - Suc i))
            [0..<unat (d - 1)],
       sizes := sizes ?s1 @ replicate (unat (d - 1)) (sizeof_vector P),
       ticks := ticks ?s1 + 2 * unat (d - 1),
       events := events ?s1 @ decode_events (next_value v d) (d - 1) @
          MapperCall (final_value (next_value v d) (d - 1)) #
          map (\<lambda>i. SampleLogged (of_nat (Suc i))
                 (clock P (ticks ?s1 + unat (d - 1) + i) -
                  clock P (ticks ?s1 + unat (d - 1) - Suc i))
                 (sizeof_vector P))
            [0..<unat (d - 1)]\<rparr>)"
    by (rule Suc.hyps(1) [OF d(2) [symmetric] inner])
  have last: "SampleLogged d = SampleLogged (of_nat (Suc m))"
    using d(3) by simp
  show ?case
    unfolding unwinder_step [OF d(1)] IH
    apply (simp add: d(2) m fin decode_events_step [OF d(1)] now_def log_event_def
        push_sample_def cong1 cong2 last replicate_append_same mult_2 del: of_nat_Suc)
    apply (rule run_state.equality; simp add: add.assoc)
    done
qed

lemma unwinder_failure:
  assumes "ithPermutation n k (final_value v d) = Inl e"
  shows "reverse_engineer_encoded_value P v d n k s =
    (Inl e,
     s\<lparr>ticks := ticks s + unat d,
       events := events s @ decode_events v d @ [MapperCall (final_value v d)]\<rparr>)"
  using assms
proof (induction "unat d" arbitrary: d v s)
  case 0
  then have "d = 0"
    by (simp add: unat_eq_zero)
  with 0 show ?case
    by (simp add: unwinder_zero final_value_zero decode_events_zero log_event_def)
next
  case (Suc m)
  note d = depth_Suc [OF Suc.hyps(2)]
  let ?s1 = "log_event (DecodeStep d v) (snd (now P s))"
  have fin: "final_value v d = final_value (next_value v d) (d - 1)"
    using d(1) by (rule final_value_step)
  have inner: "ithPermutation n k (final_value (next_value v d) (d - 1)) = Inl e"
    using Suc.prems fin by simp
  have m: "unat d = Suc m"
    using Suc.hyps(2) by simp
  have IH: "reverse_engineer_encoded_value P (next_value v d) (d - 1) n k ?s1 =
    (Inl e,
     ?s1\<lparr>ticks := ticks ?s1 + unat (d - 1),
       events := events ?s1 @ decode_events (next_value v d) (d - 1) @
          [MapperCall (final_value (next_value v d) (d - 1))]\<rparr>)"
    by (rule Suc.hyps(1) [OF d(2) [symmetric] inner])
  show ?case
    unfolding unwinder_step [OF d(1)] IH
    by (simp add: d(2) m fin decode_events_step [OF d(1)] now_def log_event_def)
qed

lemma unwinder_result:
  "fst (reverse_engineer_encoded_value P v d n k s) = ithPermutation n k (final_value v d)"
proof (cases "ithPermutation n k (final_value v d)")
  case (Inl e)
  then show ?thesis
    by (simp add: unwinder_failure)
next
  case (Inr r)
  then show ?thesis
    by (simp add: unwinder_success)
qed


lemma length_decode_events: "length (decode_events v d) = unat d"
proof (induction "unat d" arbitrary: d v)
  case 0
  then have "d = 0"
    by (simp add: unat_eq_zero)
  then show ?case
    by (simp add: decode_events_zero)
next
  case (Suc m)
  note d = depth_Suc [OF Suc.hyps(2)]
  show ?case
    using Suc.hyps(1) [OF d(2) [symmetric], of "next_value v d"] d(2) Suc.hyps(2)
    by (simp add: decode_events_step [OF d(1)])
qed


lemma decode_steps_append: "decode_steps (es @ fs) = decode_steps es @ decode_steps fs"
  by (induction es rule: decode_steps.induct) simp_all

lemma mapper_calls_append: "mapper_calls (es @ fs) = mapper_calls es @ mapper_calls fs"
  by (induction es rule: mapper_calls.induct) simp_all

lemma decode_events_only:
  "logged (decode_events v d) = [] \<and> mapper_calls (decode_events v d) = [] \<and>
   length (decode_steps (decode_events v d)) = unat d"
proof (induction "unat d" arbitrary: d v)
  case 0
  then have "d = 0"
    by (simp add: unat_eq_zero)
  then show ?case
    by (simp add: decode_events_zero)
next
  case (Suc m)
  note d = depth_Suc [OF Suc.hyps(2)]
  show ?case
    using Suc.hyps(1) [OF d(2) [symmetric], of "next_value v d"] d(2) Suc.hyps(2)
    by (simp add: decode_events_step [OF d(1)])
qed


lemma decode_steps_samples: "decode_steps (map (\<lambda>i. SampleLogged (f i) (g i) sz) xs) = []"
  by (induction xs) simp_all

lemma mapper_calls_samples: "mapper_calls (map (\<lambda>i. SampleLogged (f i) (g i) sz) xs) = []"
  by (induction xs) simp_all

lemma unwinder_sizes:
  "\<exists>m. sizes (snd (reverse_engineer_encoded_value P v d n k s)) =
     sizes s @ replicate m (sizeof_vector P)"
proof (cases "ithPermutation n k (final_value v d)")
  case (Inl e)
  then have "sizes (snd (reverse_engineer_encoded_value P v d n k s)) =
      sizes s @ replicate 0 (sizeof_vector P)"
    by (simp add: unwinder_failure)
  then show ?thesis ..
next
  case (Inr r)
  then have "sizes (snd (reverse_engineer_encoded_value P v d n k s)) =
      sizes s @ replicate (unat d) (sizeof_vector P)"
    by (simp add: unwinder_success)
  then show ?thesis ..
qed

text \<open>How many decode steps, mapper calls and appended samples a call makes.\<close>

lemma unwinder_counts:
  "length (decode_steps (events (snd (reverse_engineer_encoded_value P v d n k s)))) =
     length (decode_steps (events s)) + unat d \<and>
   mapper_calls (events (snd (reverse_engineer_encoded_value P v d n k s))) =
     mapper_calls (events s) @ [final_value v d] \<and>
   length (timings (snd (reverse_engineer_encoded_value P v d n k s))) =
     length (timings s) + (if isl (ithPermutation n k (final_value v d)) then 0 else unat d)"
proof (cases "ithPermutation n k (final_value v d)")
  case (Inl e)
  then show ?thesis
    by (simp add: unwinder_failure decode_steps_append mapper_calls_append decode_events_only)
next
  case (Inr r)
  then show ?thesis
    by (simp add: unwinder_success decode_steps_append mapper_calls_append decode_events_only
        decode_steps_samples mapper_calls_samples)
qed

lemmas unwind_eval =
  final_value.simps decode_events.simps next_value_eq signed_divide_int_def
  signed_modulo_int_def ithPermutation_def ithPermutation_loop.simps c_div_def c_mod_def
  INT_MIN_def INT_MAX_def word_sle_eq

text \<open>The events of a call: its decode steps, then the call of the mapper, then the
  appends (if the mapper returned).\<close>

lemma unwinder_events:
  "\<exists>tail. events (snd (reverse_engineer_encoded_value P v d n k s)) =
     events s @ decode_events v d @ MapperCall (final_value v d) # tail"
proof (cases "ithPermutation n k (final_value v d)")
  case (Inl e)
  then show ?thesis
    by (simp add: unwinder_failure)
next
  case (Inr r)
  then show ?thesis
    by (simp add: unwinder_success)
qed

lemma first_events:
  assumes "d \<noteq> 0"
  shows "take 2 (decode_events v d @ MapperCall (final_value v d) # tail) =
    [DecodeStep d v,
     if d = 1 then MapperCall (next_value v d) else DecodeStep (d - 1) (next_value v d)]"
proof (cases "d = 1")
  case True
  then show ?thesis
    by (simp add: decode_events_step decode_events_zero final_value_step final_value_zero)
next
  case False
  then have "d - 1 \<noteq> 0"
    by simp
  then show ?thesis
    using assms False by (simp add: decode_events_step)
qed

text \<open>
  C4. In the call at a depth \<open>d > 0\<close> on the value \<open>v\<close>: \<open>decode v 1\<close> is \<open>v / 2 - 1 / 2\<close>,
  and the conversion of \<open>decode v 1 - d / 2\<close> to \<^verbatim>\<open>int\<close> succeeds and gives the truncation of
  \<open>v / 2 - 1 / 2 - d / 2\<close>, so that the \<open>d / 2\<close> is subtracted on top of the \<open>1 / 2\<close> that
  \<open>decode\<close> subtracts. That value is what the call passes on: after noting its own decode
  step, the next thing the run does is the decode step of depth \<open>d - 1\<close> on that value
  (the call of the mapper on it when \<open>d = 1\<close>); the call is the call at depth \<open>d - 1\<close> on
  that value followed by the append of its sample, and it returns what the mapper makes
  of the value that this one unwinds to.
\<close>

theorem unwind_step_next_value:
  assumes "0 < sint d"
  shows "decode (of_int32 v) 1 = Finite (real_of_int (sint v) / 2 - 1 / 2) \<and>
    static_cast_int (d_sub (decode (of_int32 v) 1) (d_div (of_int32 d) (Finite 2))) =
      Inr (next_value v d) \<and>
    sint (next_value v d) =
      trunc_toward_zero (real_of_int (sint v) / 2 - 1 / 2 - real_of_int (sint d) / 2) \<and>
    take 2 (drop (length (events s))
        (events (snd (reverse_engineer_encoded_value P v d n k s)))) =
      [DecodeStep d v,
       if d = 1 then MapperCall (next_value v d) else DecodeStep (d - 1) (next_value v d)] \<and>
    fst (reverse_engineer_encoded_value P v d n k s) =
      ithPermutation n k (final_value (next_value v d) (d - 1)) \<and>
    reverse_engineer_encoded_value P v d n k s =
      (case reverse_engineer_encoded_value P (next_value v d) (d - 1) n k
              (log_event (DecodeStep d v) (snd (now P s))) of
         (Inl e, s2) \<Rightarrow> (Inl e, s2)
       | (Inr result, s2) \<Rightarrow>
           (Inr result,
            log_event (SampleLogged d (fst (now P s2) - fst (now P s)) (sizeof_vector P))
              (push_sample (fst (now P s2) - fst (now P s)) (sizeof_vector P)
                (snd (now P s2)))))"
proof -
  from assms have d: "d \<noteq> 0"
    by auto
  have "real_of_int (sint v - 1) / 2 = real_of_int (sint v) / 2 - 1 / 2"
    by (simp add: field_simps)
  then have c1: "decode (of_int32 v) 1 = Finite (real_of_int (sint v) / 2 - 1 / 2)"
    by (simp only: decode_int32)
  have c3: "sint (next_value v d) =
      trunc_toward_zero (real_of_int (sint v) / 2 - 1 / 2 - real_of_int (sint d) / 2)"
    by (simp only: sint_next_value trunc_next)
  obtain tail where "events (snd (reverse_engineer_encoded_value P v d n k s)) =
      events s @ decode_events v d @ MapperCall (final_value v d) # tail"
    using unwinder_events by blast
  then have "drop (length (events s))
        (events (snd (reverse_engineer_encoded_value P v d n k s))) =
      decode_events v d @ MapperCall (final_value v d) # tail"
    by simp
  then have c4: "take 2 (drop (length (events s))
        (events (snd (reverse_engineer_encoded_value P v d n k s)))) =
      [DecodeStep d v,
       if d = 1 then MapperCall (next_value v d) else DecodeStep (d - 1) (next_value v d)]"
    by (simp only: first_events [OF d])
  have c5: "fst (reverse_engineer_encoded_value P v d n k s) =
      ithPermutation n k (final_value (next_value v d) (d - 1))"
    by (simp only: unwinder_result final_value_step [OF d])
  show ?thesis
    using c1 static_cast_next c3 c4 c5 unwinder_step [OF d] by blast
qed

theorem unwind_step_next_value_witness:
  "0 < sint (3 :: int32) \<and>
   static_cast_int (d_sub (decode (of_int32 37) 1) (d_div (of_int32 3) (Finite 2))) = Inr 16 \<and>
   take 2 (events (snd (reverse_engineer_encoded_value example_platform 37 3 10 3
      initial_state))) = [DecodeStep 3 37, DecodeStep 2 16] \<and>
   fst (reverse_engineer_encoded_value example_platform 37 3 10 3 initial_state) =
     Inr [0, 1, 0]"
proof -
  have pos: "0 < sint (3 :: int32)"
    by simp
  have nv: "next_value 37 3 = 16"
    by (simp add: next_value_eq signed_divide_int_def)
  have f: "final_value 16 2 = 2"
    by (simp add: unwind_eval)
  have m: "ithPermutation 10 3 2 = Inr [0, 1, 0]"
    by (simp add: unwind_eval)
  have e: "events initial_state = []"
    by (simp add: initial_state_def)
  note t = unwind_step_next_value [OF pos, of 37 initial_state example_platform 10 3]
  have "static_cast_int (d_sub (decode (of_int32 37) 1) (d_div (of_int32 3) (Finite 2))) =
      Inr 16"
    using t [THEN conjunct2, THEN conjunct1] by (simp only: nv)
  moreover have "take 2 (events (snd (reverse_engineer_encoded_value example_platform 37 3 10 3
      initial_state))) = [DecodeStep 3 37, DecodeStep 2 16]"
    using t [THEN conjunct2, THEN conjunct2, THEN conjunct2, THEN conjunct1]
    by (simp add: nv e)
  moreover have "fst (reverse_engineer_encoded_value example_platform 37 3 10 3 initial_state) =
     Inr [0, 1, 0]"
    using t [THEN conjunct2, THEN conjunct2, THEN conjunct2, THEN conjunct2, THEN conjunct1]
    by (simp add: nv f m)
  ultimately show ?thesis
    using pos by (simp only: simp_thms)
qed

text \<open>
  C7 (the code does not do what the claim says). The size component of every sample is
  \<^verbatim>\<open>sizeof(result)\<close>, the size of the vector object, a constant of the platform: one
  unwind step over the 3 digits \<open>[1, 0, 2]\<close> (12 bytes of \<^verbatim>\<open>int\<close>) and one over 10 digits
  (40 bytes) both log 24.
\<close>

theorem logged_size_is_constant:
  "fst (reverse_engineer_encoded_value example_platform 76 1 10 3 initial_state) = Inr [1, 0, 2] \<and>
   sizes (snd (reverse_engineer_encoded_value example_platform 76 1 10 3 initial_state)) = [24] \<and>
   fst (reverse_engineer_encoded_value example_platform 76 1 10 10 initial_state) =
     Inr [1, 0, 2, 1, 0, 0, 0, 0, 0, 0] \<and>
   sizes (snd (reverse_engineer_encoded_value example_platform 76 1 10 10 initial_state)) = [24]"
proof -
  have f: "final_value 76 1 = 37"
    by (simp add: unwind_eval)
  have a: "ithPermutation 10 3 (final_value 76 1) = Inr [1, 0, 2]"
    unfolding f by (simp add: unwind_eval)
  have b: "ithPermutation 10 10 (final_value 76 1) = Inr [1, 0, 2, 1, 0, 0, 0, 0, 0, 0]"
    unfolding f by (simp add: unwind_eval)
  show ?thesis
    by (simp add: unwinder_success [OF a] unwinder_success [OF b] initial_state_def
        example_platform_def)
qed



text \<open>
  C9. A call of the unwinder, at any depth and on any log, leaves the entries that
  were in \<open>timings\<close> and \<open>sizes\<close> where they were: each old log is a prefix of the new one.
\<close>

theorem log_is_append_only:
  "prefix (timings s) (timings (snd (reverse_engineer_encoded_value P v d n k s))) \<and>
   prefix (sizes s) (sizes (snd (reverse_engineer_encoded_value P v d n k s)))"
proof (cases "ithPermutation n k (final_value v d)")
  case (Inl e)
  then show ?thesis
    by (simp add: unwinder_failure)
next
  case (Inr r)
  then show ?thesis
    by (simp add: unwinder_success)
qed

text \<open>
  C10. What the unwinder returns is the mapper's result on the value that reaches
  depth 0; it is the same for any two states of the logs, and for any two clocks.
\<close>

theorem result_independent_of_logs:
  "fst (reverse_engineer_encoded_value P v d n k s) =
   fst (reverse_engineer_encoded_value P' v d n k s') \<and>
   fst (reverse_engineer_encoded_value P v d n k s) = ithPermutation n k (final_value v d)"
  by (simp add: unwinder_result)


section \<open>The mapper\<close>

text \<open>\<open>34!\<close> is a multiple of \<open>2 ^ 32\<close>: at \<open>j = 34\<close> the wrapped \<open>factor\<close> is 0 and the
  division fails, for every rank.\<close>

lemma mapper_fails_from_34:
  assumes "34 \<le> sint k"
  shows "ithPermutation n k i = Inl DivisionByZero"
  using assms
  by (simp add: ithPermutation_def ithPermutation_loop.simps c_div_def c_mod_def INT_MIN_def
      INT_MAX_def word_sle_eq)

lemma division_no_IncrementOverflow:
  "c_div a b \<noteq> Inl IncrementOverflow" "c_mod a b \<noteq> Inl IncrementOverflow"
  by (simp_all add: c_div_def c_mod_def)

lemma loop_IncrementOverflow:
  "ithPermutation_loop k i j factor result = Inl IncrementOverflow \<Longrightarrow> k = INT_MAX"
proof (induction k i j factor result rule: ithPermutation_loop.induct)
  case (1 k i j factor result)
  show ?case
  proof (cases "j = INT_MAX")
    case True
    have "j \<le>s k"
      using "1.prems" by (subst (asm) ithPermutation_loop.simps) (simp split: if_splits)
    then have "2147483647 \<le> sint k"
      using True by (simp add: word_sle_eq INT_MAX_def)
    moreover have "sint k \<le> 2147483647"
      using sint_lt [of k] by simp
    ultimately have "sint k = sint INT_MAX"
      by (simp add: INT_MAX_def)
    then show ?thesis
      by (rule signed_word_eqI)
  next
    case False
    then show ?thesis
      using "1.prems" "1.IH"
      by (subst (asm) ithPermutation_loop.simps)
        (auto simp: Let_def division_no_IncrementOverflow split: if_splits sum.splits)
  qed
qed

lemma ithPermutation_no_IncrementOverflow: "ithPermutation n k i \<noteq> Inl IncrementOverflow"
proof
  assume a: "ithPermutation n k i = Inl IncrementOverflow"
  then have "k = INT_MAX"
    unfolding ithPermutation_def by (rule loop_IncrementOverflow)
  then have "34 \<le> sint k"
    by (simp add: INT_MAX_def)
  then have "ithPermutation n k i = Inl DivisionByZero"
    by (rule mapper_fails_from_34)
  with a show False
    by simp
qed


text \<open>When the loop returns, it has appended one digit for each \<open>j\<close> up to \<open>k\<close>.\<close>

lemma loop_length:
  "ithPermutation_loop k i j factor result = Inr r \<Longrightarrow>
   length r = length result + nat (sint k - sint j + 1)"
proof (induction k i j factor result rule: ithPermutation_loop.induct)
  case (1 k i j factor result)
  show ?case
  proof (cases "j \<le>s k")
    case False
    then show ?thesis
      using "1.prems" by (subst (asm) ithPermutation_loop.simps) (simp add: word_sle_eq)
  next
    case True
    from "1.prems" True obtain q element where
      q: "c_div i (factor * j) = Inr q" and
      e: "c_mod q (j + 1) = Inr element" and
      ne: "j \<noteq> INT_MAX" and
      rec: "ithPermutation_loop k i (j + 1) (factor * j) (result @ [element]) = Inr r"
      by (subst (asm) ithPermutation_loop.simps)
        (auto simp: Let_def split: if_splits sum.splits)
    have "sint j \<le> 2147483647"
      using sint_lt [of j] by simp
    moreover have "sint j \<noteq> 2147483647"
    proof
      assume "sint j = 2147483647"
      then have "sint j = sint INT_MAX"
        by (simp add: INT_MAX_def)
      then have "j = INT_MAX"
        by (rule signed_word_eqI)
      with ne show False
        by simp
    qed
    moreover have "- 2147483648 \<le> sint j"
      using sint_ge [of j] by simp
    ultimately have "sint (j + 1) = sint j + 1"
      by (simp add: sint_word_ariths signed_take_bit_int_eq_self)
    moreover have "length r = length (result @ [element]) + nat (sint k - sint (j + 1) + 1)"
      using True q e ne rec by (rule "1.IH" [OF _ refl])
    ultimately show ?thesis
      using True by (simp add: word_sle_eq)
  qed
qed

lemma mapper_length: "ithPermutation n k i = Inr r \<Longrightarrow> length r = nat (sint k)"
  unfolding ithPermutation_def by (drule loop_length) simp

text \<open>Up to \<open>k = 33\<close> the wrapped \<open>factor\<close> is never 0, and the call returns.\<close>

lemma mapper_returns_below_34:
  assumes "sint k < 34"
  shows "\<exists>r. ithPermutation n k i = Inr r"
  using assms
  by (simp add: ithPermutation_def ithPermutation_loop.simps c_div_def c_mod_def INT_MIN_def
      INT_MAX_def word_sle_eq)

lemma spec_digit_range: "0 \<le> spec_digit i j \<and> spec_digit i j \<le> int j"
proof -
  have m: "0 < int j + 1"
    by simp
  have "(i div fact j) mod (int j + 1) < int j + 1"
    using m by (rule pos_mod_bound)
  moreover have "0 \<le> (i div fact j) mod (int j + 1)"
    using m by (rule pos_mod_sign)
  ultimately show ?thesis
    by (simp add: spec_digit_def)
qed

text \<open>Up to \<open>k = 12\<close> nothing overflows: for a rank \<open>i \<ge> 0\<close> the loop computes the digits
  of the specification.\<close>

lemma fact_12: "fact 12 = (479001600 :: int)"
  by (simp add: fact_numeral)

lemma fact_small:
  assumes "J \<le> 12"
  shows "0 < (fact J :: int)" and "(fact J :: int) \<le> 479001600"
proof -
  show "0 < (fact J :: int)"
    by simp
  have "(fact J :: int) \<le> fact 12"
    using assms by (simp only: fact_mono)
  then show "(fact J :: int) \<le> 479001600"
    by (simp only: fact_12)
qed

lemma sint_small:
  "- 2147483648 \<le> x \<Longrightarrow> x \<le> 2147483647 \<Longrightarrow> sint (word_of_int x :: int32) = x"
  by (simp add: sint_sbintrunc' signed_take_bit_int_eq_self)

lemma loop_small:
  assumes "0 \<le> sint i" and "sint k \<le> 12" and "1 \<le> sint j"
    and "factor = word_of_int (fact (nat (sint j) - 1))"
  shows "ithPermutation_loop k i j factor result =
    Inr (result @ map (\<lambda>j. word_of_int (spec_digit (sint i) j)) [nat (sint j)..<Suc (nat (sint k))])"
  using assms
proof (induction k i j factor result rule: ithPermutation_loop.induct)
  case (1 k i j factor result)
  let ?J = "nat (sint j)"
  show ?case
  proof (cases "j \<le>s k")
    case False
    then have "[?J..<Suc (nat (sint k))] = []"
      using "1.prems"(3) by (simp add: word_sle_eq)
    with False show ?thesis
      by (subst ithPermutation_loop.simps) simp
  next
    case True
    then have jk: "sint j \<le> sint k"
      by (simp add: word_sle_eq)
    with "1.prems" have J: "1 \<le> ?J" "?J \<le> 12" "int ?J = sint j"
      by simp_all
    have f: "(fact ?J :: int) = fact (?J - 1) * int ?J"
      using J(1) by (cases ?J) (simp_all add: mult.commute)
    have "factor * j = word_of_int (fact (?J - 1)) * word_of_int (sint j)"
      using "1.prems"(4) by simp
    also have "\<dots> = word_of_int (fact ?J)"
      by (simp only: f J(3) of_int_mult)
    finally have factor': "factor * j = word_of_int (fact ?J)" .
    have "(0 :: int) \<le> fact ?J"
      by simp
    then have "- 2147483648 \<le> (fact ?J :: int)"
      by linarith
    moreover have "(fact ?J :: int) \<le> 2147483647"
      using fact_small(2) [OF J(2)] by linarith
    ultimately have sf: "sint (factor * j) = fact ?J"
      unfolding factor' by (rule sint_small)
    have pos: "0 < sint (factor * j)"
      unfolding sf by simp
    have nz: "factor * j \<noteq> 0" "factor * j \<noteq> - 1"
    proof -
      show "factor * j \<noteq> 0"
        using pos by auto
      show "factor * j \<noteq> - 1"
      proof
        assume "factor * j = - 1"
        then have "sint (factor * j) = sint (- 1 :: int32)"
          by (simp only:)
        with pos show False
          by simp
      qed
    qed
    have ilt: "sint i \<le> 2147483647"
      using sint_lt [of i] by simp
    have "sint i sdiv fact ?J = sint i div fact ?J"
      using "1.prems"(1) fact_small(1) [OF J(2)] by (simp add: signed_divide_int_def sgn_if)
    then have q: "c_div i (factor * j) = Inr (word_of_int (sint i div fact ?J))"
      using nz by (simp add: c_div_def sf)
    let ?q = "word_of_int (sint i div fact ?J) :: int32"
    have q0: "0 \<le> sint i div fact ?J"
      using "1.prems"(1) fact_small(1) [OF J(2)] by (simp add: pos_imp_zdiv_nonneg_iff)
    have "sint i div fact ?J \<le> sint i"
      using "1.prems"(1) by (cases "sint i = 0") (simp_all add: int_div_le_self)
    then have sq: "sint ?q = sint i div fact ?J"
      using q0 ilt by (intro sint_small) simp_all
    have sj1: "sint (j + 1) = sint j + 1"
      using J by (simp add: sint_word_ariths signed_take_bit_int_eq_self)
    have pos1: "0 < sint (j + 1)"
      unfolding sj1 using J by simp
    have m: "j + 1 \<noteq> 0" "j + 1 \<noteq> - 1"
    proof -
      show "j + 1 \<noteq> 0"
        using pos1 by auto
      show "j + 1 \<noteq> - 1"
      proof
        assume "j + 1 = - 1"
        then have "sint (j + 1) = sint (- 1 :: int32)"
          by (simp only:)
        with pos1 show False
          by simp
      qed
    qed
    have "sint ?q smod sint (j + 1) = spec_digit (sint i) ?J"
      using q0 J unfolding sq sj1
      by (simp add: signed_modulo_int_def spec_digit_def sgn_if)
    then have e: "c_mod ?q (j + 1) = Inr (word_of_int (spec_digit (sint i) ?J))"
      using m by (simp add: c_mod_def)
    have ne: "j \<noteq> INT_MAX"
      using J by (auto simp: INT_MAX_def)
    have next_J: "nat (sint (j + 1)) = Suc ?J"
      using sj1 J by simp
    have "ithPermutation_loop k i (j + 1) (factor * j)
        (result @ [word_of_int (spec_digit (sint i) ?J)]) =
      Inr ((result @ [word_of_int (spec_digit (sint i) ?J)]) @
        map (\<lambda>j. word_of_int (spec_digit (sint i) j)) [nat (sint (j + 1))..<Suc (nat (sint k))])"
      using True refl q e ne "1.prems"(1,2)
    proof (rule "1.IH")
      show "1 \<le> sint (j + 1)"
        using sj1 J by simp
      show "factor * j = word_of_int (fact (nat (sint (j + 1)) - 1))"
        using factor' next_J by simp
    qed
    moreover have "[?J..<Suc (nat (sint k))] = ?J # [Suc ?J..<Suc (nat (sint k))]"
      using jk J by (intro upt_conv_Cons) simp
    ultimately show ?thesis
      using True q e ne
      by (subst ithPermutation_loop.simps) (simp add: Let_def next_J)
  qed
qed

lemma mapper_small_k:
  assumes "0 \<le> sint i" and "sint k \<le> 12"
  shows "ithPermutation n k i =
    Inr (map (\<lambda>j. word_of_int (spec_digit (sint i) j)) [1..<Suc (nat (sint k))])"
  unfolding ithPermutation_def
  using loop_small [OF assms, of 1 1 "[]"] by simp

text \<open>
  C2 (the code does not do what the claim says). \<open>factor\<close> is a 32-bit \<^verbatim>\<open>int\<close> and \<open>j!\<close> does not fit from
  \<open>j = 13\<close> on. At \<open>k = 13\<close> and rank \<open>2 ^ 31 - 1\<close> the digit at position 13 is 1, where
  \<open>(i div 13!) mod 14\<close> is 0. At \<open>k = 17\<close> the wrapped factor is negative, and the rank
  300000000 gets the digit \<open>-1\<close> at position 17. At \<open>k = 34\<close> the wrapped factor is 0 and
  the call ends in a division by zero without returning a sequence.
\<close>

theorem mapper_overflow:
  "ithPermutation 13 13 2147483647 = Inr [1, 0, 1, 0, 1, 0, 0, 8, 7, 8, 5, 4, 1] \<and>
   (2147483647 div fact 13) mod 14 = (0 :: int) \<and>
   ithPermutation 17 17 300000000 =
     Inr [0, 0, 0, 0, 4, 5, 3, 6, 6, 5, 7, 0, 0, 0, 0, 0, - 1] \<and>
   ithPermutation 34 34 0 = Inl DivisionByZero"
proof -
  have "ithPermutation 13 13 2147483647 = Inr [1, 0, 1, 0, 1, 0, 0, 8, 7, 8, 5, 4, 1]"
    by (simp add: unwind_eval)
  moreover have "(2147483647 div fact 13) mod 14 = (0 :: int)"
    by (simp add: fact_numeral)
  moreover have "ithPermutation 17 17 300000000 =
     Inr [0, 0, 0, 0, 4, 5, 3, 6, 6, 5, 7, 0, 0, 0, 0, 0, - 1]"
    by (simp add: unwind_eval)
  moreover have "ithPermutation 34 34 0 = Inl DivisionByZero"
    by (simp add: mapper_fails_from_34)
  ultimately show ?thesis
    by (simp only: simp_thms)
qed


section \<open>The loader and the driver\<close>

lemma malformed_extract:
  assumes "malformed line"
  shows "extract_int line = Some 0"
proof (cases "dropWhile is_space line")
  case Nil
  with assms show ?thesis
    by (simp add: malformed_def)
next
  case (Cons c cs)
  show ?thesis
  proof (cases "c = CHR ''-'' \<or> c = CHR ''+''")
    case True
    with assms Cons have "takeWhile is_digit cs = []"
      by (cases cs) (auto simp: malformed_def)
    with True Cons show ?thesis
      by (auto simp: extract_int_def Let_def)
  next
    case False
    with assms Cons have "\<not> is_digit c"
      by (simp add: malformed_def)
    with False Cons show ?thesis
      by (simp add: extract_int_def Let_def)
  qed
qed

text \<open>Every line of the file gives one value, in the order of the lines.\<close>

lemma length_load_lines: "length (load_lines P i lines) = length lines"
  by (induction lines arbitrary: i) simp_all

lemma nth_load_lines:
  "j < length lines \<Longrightarrow>
   load_lines P i lines ! j =
     (case extract_int (lines ! j) of None \<Rightarrow> unread_value P (i + j) | Some value \<Rightarrow> value)"
proof (induction lines arbitrary: i j)
  case Nil
  then show ?case
    by simp
next
  case (Cons line lines)
  show ?case
  proof (cases j)
    case 0
    then show ?thesis
      by (simp split: option.split)
  next
    case (Suc j')
    with Cons.prems have "j' < length lines"
      by simp
    from Cons.IH [OF this, of "Suc i"] Suc show ?thesis
      by (simp split: option.split)
  qed
qed

lemma layer_count_zero:
  assumes "0 < sint n" and "k = 0 \<or> n = 1"
  shows "layer_count n k = Inr 0"
proof -
  have "real_of_int (sint k) * log 2 (real_of_int (sint n)) = 0"
    using assms(2) by auto
  then have "static_cast_int
      (Finite (real_of_int \<lceil>real_of_int (sint k) * log 2 (real_of_int (sint n))\<rceil>)) = Inr 0"
    by (simp only: ceiling_zero of_int_0)
      (simp add: trunc_toward_zero_def)
  then show ?thesis
    using assms(1) by (simp only: layer_count_def) simp
qed

lemma layer_count_base_2:
  "layer_count 2 k = Inr k"
proof -
  have r: "- 2147483648 \<le> sint k" "sint k \<le> 2147483647"
    using sint_ge [of k] sint_lt [of k] by simp_all
  have "real_of_int (sint k) * log 2 (real_of_int (sint (2 :: int32))) = real_of_int (sint k)"
    by simp
  then have "static_cast_int
      (Finite (real_of_int \<lceil>real_of_int (sint k) * log 2 (real_of_int (sint (2 :: int32)))\<rceil>)) =
      static_cast_int (Finite (real_of_int (sint k)))"
    by (simp only: ceiling_of_int)
  also have "\<dots> = Inr k"
  proof -
    have "trunc_toward_zero (real_of_int (sint k)) = sint k"
      by (simp only: trunc_toward_zero_def floor_of_int ceiling_of_int if_cancel)
    then show ?thesis
      using r by (simp only: static_cast_int.simps Let_def) simp
  qed
  finally show ?thesis
    by (simp only: layer_count_def) simp
qed

lemma mapper_empty: "sint k \<le> 0 \<Longrightarrow> ithPermutation n k i = Inr []"
  by (simp add: ithPermutation_def ithPermutation_loop.simps word_sle_eq)

lemmas loader_eval =
  load_values_from_csv_def extract_int_def is_space_def is_digit_def digits_value_def
  clamp_int_def min_element_def Let_def

text \<open>For \<open>n \<ge> 1\<close> and \<open>0 \<le> k \<le> 33\<close> the layer count is defined, and it is the
  ceiling of \<open>k * log2 n\<close>.\<close>

lemma log2_int32:
  fixes n :: int32
  assumes "0 < sint n"
  shows "0 \<le> log 2 (real_of_int (sint n))" and "log 2 (real_of_int (sint n)) \<le> 31"
proof -
  have "1 \<le> real_of_int (sint n)"
    using assms by linarith
  then show "0 \<le> log 2 (real_of_int (sint n))"
    by simp
  have "sint n \<le> 2147483647"
    using sint_lt [of n] by simp
  then have "real_of_int (sint n) \<le> 2147483647"
    by linarith
  then have "real_of_int (sint n) \<le> 2 ^ 31"
    by simp
  moreover have "0 < real_of_int (sint n)"
    using assms by linarith
  ultimately show "log 2 (real_of_int (sint n)) \<le> 31"
    using log_le_iff [of 2 "real_of_int (sint n)" 31] by (simp only: powr_numeral)
qed

lemma layer_count_defined:
  assumes "0 < sint n" and "0 \<le> sint k" and "sint k \<le> 33"
  shows "\<exists>l. layer_count n k = Inr l \<and>
    sint l = \<lceil>real_of_int (sint k) * log 2 (real_of_int (sint n))\<rceil> \<and> 0 \<le> sint l"
proof -
  let ?x = "real_of_int (sint k) * log 2 (real_of_int (sint n))"
  have k: "0 \<le> real_of_int (sint k)" "real_of_int (sint k) \<le> 33"
    using assms(2,3) by linarith+
  have x0: "0 \<le> ?x"
    using k(1) log2_int32(1) [OF assms(1)] by (rule mult_nonneg_nonneg)
  have "?x \<le> 33 * 31"
    using k(2) log2_int32 [OF assms(1)] k(1) by (intro mult_mono) simp_all
  then have c: "0 \<le> \<lceil>?x\<rceil>" "\<lceil>?x\<rceil> \<le> 1023"
    using x0 by (simp_all add: ceiling_le_iff)
  have "trunc_toward_zero (real_of_int \<lceil>?x\<rceil>) = \<lceil>?x\<rceil>"
    by (simp only: trunc_toward_zero_def floor_of_int ceiling_of_int if_cancel)
  then have "static_cast_int (Finite (real_of_int \<lceil>?x\<rceil>)) = Inr (word_of_int \<lceil>?x\<rceil>)"
    using c by (simp only: static_cast_int.simps Let_def) simp
  then have "layer_count n k = Inr (word_of_int \<lceil>?x\<rceil>)"
    using assms(1) by (simp only: layer_count_def) simp
  moreover have "sint (word_of_int \<lceil>?x\<rceil> :: int32) = \<lceil>?x\<rceil>"
    using c by (intro sint_small) simp_all
  ultimately show ?thesis
    using c(1) by (intro exI [of _ "word_of_int \<lceil>?x\<rceil>"]) (simp only: simp_thms)
qed

text \<open>For \<open>n \<le> 0\<close> the driver stops at the conversion of the layer count.\<close>

lemma driver_nonpositive_n:
  assumes "sint n \<le> 0"
  shows "main_program P n k lines = (Inl UndefinedConversion, initial_state)"
  using assms by (simp add: main_program_def layer_count_def)

text \<open>Below \<open>k = 34\<close> a run of the driver on a non-empty list of candidates ends with \<open>L\<close>
  samples in the log, after \<open>L\<close> decode steps and one call of the mapper.\<close>

lemma driver_below_34:
  assumes "sint k < 34"
    and "min_element (load_values_from_csv P lines) = Inr m"
    and "layer_count n k = Inr L"
  shows "\<exists>r s'. main_program P n k lines =
      (Inr (m, clock P (Suc (2 * unat L)) - clock P 0), s') \<and>
    ithPermutation n k (final_value m L) = Inr r \<and>
    length (timings s') = unat L \<and>
    length (sizes s') = unat L \<and>
    length (decode_steps (events s')) = unat L \<and>
    mapper_calls (events s') = [final_value m L]"
proof -
  from mapper_returns_below_34 [OF assms(1)]
  obtain r where r: "ithPermutation n k (final_value m L) = Inr r"
    by blast
  show ?thesis
    using assms(2,3)
    by (simp add: main_program_def now_def unwinder_success [OF r] r initial_state_def
        decode_steps_append mapper_calls_append decode_events_only decode_steps_samples
        mapper_calls_samples)
qed

text \<open>
  C3 (the code does not do what the claim says). With \<open>n = 2\<close> and \<open>k = 34\<close> the driver computes \<open>L = 34\<close>;
  the unwinder makes its 34 decode steps and calls the mapper once, and the mapper
  divides by zero at \<open>j = 34\<close> (see \<open>mapper_fails_from_34\<close>). The run ends there: no
  sample has been appended, since each call appends only after its inner call is back.
\<close>

theorem unwinder_dies_in_mapper:
  "fst (main_program example_platform 2 34 [''7'']) = Inl DivisionByZero \<and>
   timings (snd (main_program example_platform 2 34 [''7''])) = [] \<and>
   sizes (snd (main_program example_platform 2 34 [''7''])) = [] \<and>
   length (decode_steps (events (snd (main_program example_platform 2 34 [''7''])))) = 34 \<and>
   length (mapper_calls (events (snd (main_program example_platform 2 34 [''7''])))) = 1"
proof -
  have l: "load_values_from_csv example_platform [''7''] = [7]"
    by (simp add: loader_eval)
  have m: "ithPermutation 2 34 (final_value 7 34) = Inl DivisionByZero"
    by (simp add: mapper_fails_from_34)
  show ?thesis
    unfolding main_program_def l layer_count_base_2
    by (simp add: min_element_def now_def unwinder_failure [OF m] initial_state_def
        decode_steps_append mapper_calls_append decode_events_only)
qed

text \<open>
  C5, as the claim states it, fails: the driver does not look at \<open>n\<close> and \<open>k\<close> before it
  computes. With \<open>n = 2\<close> and \<open>k = 0\<close> it prints the smallest value and the elapsed time.
\<close>

theorem no_argument_check_counterexample:
  "sint (0 :: int32) \<le> 0 \<and>
   main_program example_platform 2 0 [''5''] =
     (Inr (5, 100), initial_state\<lparr>ticks := 2, events := [MapperCall 5]\<rparr>)"
proof -
  have l: "load_values_from_csv example_platform [''5''] = [5]"
    by (simp add: loader_eval)
  show ?thesis
    unfolding main_program_def l layer_count_base_2
    by (simp add: min_element_def now_def unwinder_zero mapper_empty log_event_def
        initial_state_def example_platform_def)
qed

text \<open>
  C5, amended. For \<open>n \<ge> 1\<close> and \<open>k = 0\<close>, and for \<open>n = 1\<close> and any \<open>k \<le> 0\<close>, on a file
  with at least one line, the program does not fail: \<open>L\<close> is 0, no unwind
  step runs, the mapper is called once on the smallest value and returns the empty
  sequence, and the program prints the smallest value and the time between its two
  clock readings.
\<close>

theorem no_argument_check:
  assumes "0 < sint n" and "sint k \<le> 0" and "k = 0 \<or> n = 1"
    and "load_values_from_csv P lines = values" and "min_element values = Inr m"
  shows "main_program P n k lines =
     (Inr (m, clock P 1 - clock P 0), initial_state\<lparr>ticks := 2, events := [MapperCall m]\<rparr>) \<and>
    ithPermutation n k m = Inr []"
  using assms
  by (simp add: main_program_def layer_count_zero now_def unwinder_zero mapper_empty
      log_event_def initial_state_def)

theorem no_argument_check_witness:
  "main_program example_platform 1 (- 3) [''8'', ''5''] =
     (Inr (5, 100), initial_state\<lparr>ticks := 2, events := [MapperCall 5]\<rparr>)"
proof -
  have l: "load_values_from_csv example_platform [''8'', ''5''] = [8, 5]"
    by (simp add: loader_eval)
  have m: "min_element [8, 5 :: int32] = Inr 5"
    by (simp add: min_element_def word_sless_alt)
  have "0 < sint (1 :: int32)" and "sint (- 3 :: int32) \<le> 0" and "(- 3 :: int32) = 0 \<or> (1 :: int32) = 1"
    by simp_all
  from no_argument_check [OF this l m]
  show ?thesis
    by (simp add: example_platform_def)
qed

text \<open>
  C6, as the claim states it, fails: the line \<open>abc\<close> loads as the value 0, and so does
  the lone sign \<open>-\<close>; \<open>12abc\<close> loads as 12.
\<close>

theorem malformed_token_counterexample:
  "malformed ''abc'' \<and>
   load_values_from_csv example_platform [''abc'', ''-'', ''12abc''] = [0, 0, 12]"
  by (simp add: malformed_def loader_eval)

text \<open>
  C6, amended. Loading never fails and never skips a line: every line of the file
  gives one value, at its own position. A line that does not start with a number gives
  the value 0, whatever the lines around it are; a line with nothing but white space
  gives what the uninitialised variable holds; any other line gives what the extraction
  reads from it.
\<close>

theorem malformed_token_is_zero:
  "length (load_values_from_csv P lines) = length lines \<and>
   (\<forall>j < length lines.
      load_values_from_csv P lines ! j =
        (case extract_int (lines ! j) of None \<Rightarrow> unread_value P j | Some value \<Rightarrow> value)) \<and>
   (\<forall>j < length lines. malformed (lines ! j) \<longrightarrow> load_values_from_csv P lines ! j = 0)"
  by (simp add: load_values_from_csv_def length_load_lines nth_load_lines malformed_extract
      split: option.split)

theorem malformed_token_is_zero_witness:
  "malformed ''abc'' \<and>
   length (load_values_from_csv example_platform [''5'', ''abc'', ''7'']) = 3 \<and>
   load_values_from_csv example_platform [''5'', ''abc'', ''7''] ! 1 = 0 \<and>
   load_values_from_csv example_platform [''5'', ''abc'', ''7''] = [5, 0, 7] \<and>
   load_values_from_csv example_platform [''abc'', ''  '', ''4''] = [0, 99, 4]"
proof -
  have m: "malformed ([''5'', ''abc'', ''7''] ! 1)"
    by (simp add: malformed_def loader_eval)
  have j: "1 < length [''5'', ''abc'', ''7'']"
    by simp
  note t = malformed_token_is_zero [of example_platform "[''5'', ''abc'', ''7'']"]
  have "length (load_values_from_csv example_platform [''5'', ''abc'', ''7'']) = 3"
    using t by simp
  moreover have "load_values_from_csv example_platform [''5'', ''abc'', ''7''] ! 1 = 0"
    using t m j by blast
  moreover have "load_values_from_csv example_platform [''5'', ''abc'', ''7''] = [5, 0, 7]"
    by (simp add: loader_eval)
  moreover have "load_values_from_csv example_platform [''abc'', ''  '', ''4''] = [0, 99, 4]"
    by (simp add: loader_eval example_platform_def)
  ultimately show ?thesis
    using m by simp
qed


end
